theory Spec2Isabelle
  imports Complex_Main "HOL-Library.Sublist"
begin

section \<open>Python values used by the scraper\<close>

text \<open>
  A Python \<open>str\<close> is a sequence of Unicode code points, so a string is a list of
  natural numbers; \<open>lit\<close> turns an ASCII literal into its code points.
\<close>

type_synonym str = "nat list"

definition lit :: "string \<Rightarrow> str" where
  "lit cs = map of_char cs"

text \<open>The exceptions the modelled statements can raise.\<close>

datatype py_error = ValueError | IndexError | KeyError | AttributeError | OverflowError

text \<open>
  \<open>xs[i]\<close>: a negative index counts from the end, an index out of range raises
  \<open>IndexError\<close>.
\<close>

definition getitem :: "'a list \<Rightarrow> int \<Rightarrow> py_error + 'a" where
  "getitem xs i =
     (if 0 \<le> i \<and> i < int (length xs) then Inr (xs ! nat i)
      else if i < 0 \<and> - int (length xs) \<le> i then Inr (xs ! nat (int (length xs) + i))
      else Inl IndexError)"

text \<open>\<open>xs.index(x)\<close>: the first position of \<open>x\<close>, or \<open>ValueError\<close>.\<close>

fun list_index :: "'a list \<Rightarrow> 'a \<Rightarrow> py_error + int" where
  "list_index [] x = Inl ValueError"
| "list_index (y # ys) x =
     (if y = x then Inr 0
      else (case list_index ys x of Inl e \<Rightarrow> Inl e | Inr k \<Rightarrow> Inr (k + 1)))"

text \<open>\<open>xs[i : j]\<close> for \<open>0 \<le> i \<le> j\<close>, the only slices the scraper takes.\<close>

definition slice :: "'a list \<Rightarrow> int \<Rightarrow> int \<Rightarrow> 'a list" where
  "slice xs i j = take (nat (j - i)) (drop (nat i) xs)"

text \<open>\<open>range(n)\<close>; empty when \<open>n \<le> 0\<close>.\<close>

definition py_range :: "int \<Rightarrow> int list" where
  "py_range n = [0 .. n - 1]"

text \<open>
  \<open>str.isspace\<close> of one code point, which is also what \<open>\s\<close> matches in a \<open>str\<close>
  pattern and what \<open>str.strip()\<close> removes.
\<close>

definition isspace :: "nat \<Rightarrow> bool" where
  "isspace c \<longleftrightarrow>
     (9 \<le> c \<and> c \<le> 13) \<or> (28 \<le> c \<and> c \<le> 32) \<or> c = 133 \<or> c = 160 \<or> c = 5760 \<or>
     (8192 \<le> c \<and> c \<le> 8202) \<or> c = 8232 \<or> c = 8233 \<or> c = 8239 \<or> c = 8287 \<or> c = 12288"

definition newline :: nat where
  "newline = 10"

text \<open>\<open>s.strip()\<close>.\<close>

definition strip :: "str \<Rightarrow> str" where
  "strip s = rev (dropWhile isspace (rev (dropWhile isspace s)))"

text \<open>
  \<open>s.split(sep)\<close> for a separator of one code point. The result is never empty, so
  the first branch of the \<open>case\<close> is never taken.
\<close>

fun split :: "nat \<Rightarrow> str \<Rightarrow> str list" where
  "split sep [] = [[]]"
| "split sep (c # cs) =
     (if c = sep then [] # split sep cs
      else (case split sep cs of [] \<Rightarrow> [[c]] | w # ws \<Rightarrow> (c # w) # ws))"

text \<open>\<open>sub in s\<close> for strings.\<close>

fun contains :: "str \<Rightarrow> str \<Rightarrow> bool" where
  "contains sub [] \<longleftrightarrow> sub = []"
| "contains sub (c # cs) \<longleftrightarrow> prefix sub (c # cs) \<or> contains sub cs"

text \<open>
  \<open>s.replace(old, new)\<close> for a non-empty \<open>old\<close>: every occurrence found scanning from
  the left, without overlap, is replaced once.
\<close>

function replace :: "str \<Rightarrow> str \<Rightarrow> str \<Rightarrow> str" where
  "replace old new [] = []"
| "replace old new (c # cs) =
     (if old \<noteq> [] \<and> prefix old (c # cs)
      then new @ replace old new (drop (length old) (c # cs))
      else c # replace old new cs)"
  by pat_completeness auto
termination
  by (relation "measure (\<lambda>(old, new, s). length s)") (auto simp: Suc_le_eq)

text \<open>
  A \<open>dict\<close> keeps its keys in insertion order; storing under a key that is present
  overwrites the value in place.
\<close>

type_synonym ('k, 'v) dict = "('k \<times> 'v) list"

fun setitem :: "('k, 'v) dict \<Rightarrow> 'k \<Rightarrow> 'v \<Rightarrow> ('k, 'v) dict" where
  "setitem [] k v = [(k, v)]"
| "setitem ((k', v') # d) k v =
     (if k' = k then (k, v) # d else (k', v') # setitem d k v)"

section \<open>Regular expressions\<close>

text \<open>
  The patterns of the scraper are built from character classes, bounded or unbounded
  repetition of a character class (greedy or lazy), sequence, alternation, capture
  groups and the anchors \<open>^\<close> and \<open>$\<close>. \<open>rx_run\<close> lists every way the pattern matches
  at the current position, in the order the backtracking matcher of \<open>re\<close> tries them;
  each way is the position reached, the text that remains and the groups captured.
\<close>

datatype rx =
    Cls "nat \<Rightarrow> bool"
  | Rep bool nat "nat option" "nat \<Rightarrow> bool"
  | Seq rx rx
  | Alt rx rx
  | Grp nat rx
  | Bol
  | Eol

type_synonym groups = "nat \<rightharpoonup> str"
type_synonym rx_state = "nat \<times> str \<times> groups"

fun rx_run :: "rx \<Rightarrow> rx_state \<Rightarrow> rx_state list" where
  "rx_run (Cls p) (i, s, g) =
     (case s of [] \<Rightarrow> [] | c # cs \<Rightarrow> if p c then [(i + 1, cs, g)] else [])"
| "rx_run (Rep greedy lo hi p) (i, s, g) =
     (let n = length (takeWhile p s);
          m = (case hi of None \<Rightarrow> n | Some h \<Rightarrow> min n h);
          ks = [lo ..< Suc m]
      in map (\<lambda>k. (i + k, drop k s, g)) (if greedy then rev ks else ks))"
| "rx_run (Seq a b) st = concat (map (rx_run b) (rx_run a st))"
| "rx_run (Alt a b) st = rx_run a st @ rx_run b st"
| "rx_run (Grp n a) (i, s, g) =
     map (\<lambda>(j, t, h). (j, t, h(n \<mapsto> take (j - i) s))) (rx_run a (i, s, g))"
| "rx_run Bol (i, s, g) = (if i = 0 then [(i, s, g)] else [])"
| "rx_run Eol (i, s, g) = (if s = [] \<or> s = [newline] then [(i, s, g)] else [])"

text \<open>\<open>re.match(r, s)\<close>: the first way to match at the start, or \<open>None\<close>.\<close>

definition re_match :: "rx \<Rightarrow> str \<Rightarrow> groups option" where
  "re_match r s =
     (case rx_run r (0, s, Map.empty) of [] \<Rightarrow> None | (j, t, g) # _ \<Rightarrow> Some g)"

text \<open>\<open>re.fullmatch(r, s)\<close>: the first way that consumes the whole string.\<close>

definition re_fullmatch :: "rx \<Rightarrow> str \<Rightarrow> groups option" where
  "re_fullmatch r s =
     (case filter (\<lambda>(j, t, g). t = []) (rx_run r (0, s, Map.empty)) of
        [] \<Rightarrow> None | (j, t, g) # _ \<Rightarrow> Some g)"

text \<open>\<open>m.group(n)\<close> of a match object.\<close>

definition group :: "groups \<Rightarrow> nat \<Rightarrow> str" where
  "group g n = (case g n of None \<Rightarrow> [] | Some t \<Rightarrow> t)"

definition dot :: "nat \<Rightarrow> bool" where
  "dot c \<longleftrightarrow> c \<noteq> newline"

definition upper_AZ :: "nat \<Rightarrow> bool" where
  "upper_AZ c \<longleftrightarrow> 65 \<le> c \<and> c \<le> 90"

definition chr_is :: "nat \<Rightarrow> nat \<Rightarrow> bool" where
  "chr_is a c \<longleftrightarrow> c = a"

definition chr_in :: "nat \<Rightarrow> nat \<Rightarrow> nat \<Rightarrow> bool" where
  "chr_in a b c \<longleftrightarrow> c = a \<or> c = b"

text \<open>\<open>[A-Z]{2,3}\<close>\<close>

definition region_rx :: rx where
  "region_rx = Rep True 2 (Some 3) upper_AZ"

text \<open>\<open>^(.*?)(?:\s{2,}|\s:\s)(.+)$\<close>\<close>

definition community_rx :: rx where
  "community_rx =
     Seq Bol (Seq (Grp 1 (Rep False 0 None dot))
       (Seq (Alt (Rep True 2 None isspace)
                 (Seq (Cls isspace) (Seq (Cls (chr_is 58)) (Cls isspace))))
         (Seq (Grp 2 (Rep True 1 None dot)) Eol)))"

text \<open>\<open>^(.+?)\s+Lv\s+(.+)$\<close> under \<open>re.I\<close>: the letters match in either case.\<close>

definition class_level_rx :: rx where
  "class_level_rx =
     Seq Bol (Seq (Grp 1 (Rep False 1 None dot))
       (Seq (Rep True 1 None isspace)
         (Seq (Cls (chr_in 76 108)) (Seq (Cls (chr_in 86 118))
           (Seq (Rep True 1 None isspace)
             (Seq (Grp 2 (Rep True 1 None dot)) Eol))))))"

section \<open>Scraping helpers\<close>

text \<open>\<open>re.sub(r"\s+", " ", text)\<close>: every maximal run of whitespace becomes one space.\<close>

function sub_spaces :: "str \<Rightarrow> str" where
  "sub_spaces [] = []"
| "sub_spaces (c # cs) =
     (if isspace c then 32 # sub_spaces (dropWhile isspace cs)
      else c # sub_spaces cs)"
  by pat_completeness auto
termination
  by (relation "measure length") (auto simp: length_dropWhile_le less_Suc_eq_le)

definition clean :: "str \<Rightarrow> str" where
  "clean text = strip (sub_spaces text)"

text \<open>
  The rendered page, as far as the scraper queries it: the inner text of \<open>body\<close>, the
  number of headings whose normalised text is a given one, and the inner texts of the
  list items the item locator for that heading selects.
\<close>

record page =
  body_inner_text :: str
  heading_count :: "str \<Rightarrow> nat"
  items_inner_texts :: "str \<Rightarrow> str list"

definition extract_section_list :: "page \<Rightarrow> str \<Rightarrow> str list" where
  "extract_section_list pg heading_text =
     (if heading_count pg heading_text = 0 then []
      else map clean (filter (\<lambda>t. clean t \<noteq> []) (items_inner_texts pg heading_text)))"

text \<open>The scan of the window after the anchor line: the loop with its \<open>break\<close>.\<close>

fun scan_window :: "str list \<Rightarrow> int list \<Rightarrow> py_error + (str option \<times> str option)" where
  "scan_window window [] = Inr (None, None)"
| "scan_window window (idx # idxs) =
     (case getitem window idx of
        Inl e \<Rightarrow> Inl e
      | Inr w \<Rightarrow>
          (case re_fullmatch region_rx w of
             Some m \<Rightarrow>
               (case getitem window (idx + 1) of
                  Inl e \<Rightarrow> Inl e
                | Inr f \<Rightarrow> Inr (Some w, Some f))
           | None \<Rightarrow> scan_window window idxs))"

text \<open>Region and family name from the list of lines.\<close>

definition anchor_scan :: "str list \<Rightarrow> py_error + (str option \<times> str option)" where
  "anchor_scan lines =
     (if lit ''Adventurer Profile'' \<in> set lines then
        (case list_index lines (lit ''Adventurer Profile'') of
           Inl e \<Rightarrow> Inl e
         | Inr i \<Rightarrow>
             (let window = slice lines i (i + 15)
              in scan_window window (py_range (int (length window) - 1))))
      else Inr (None, None))"

text \<open>The lines of the page: the normalised body text, split at newlines, empty lines dropped.\<close>

definition body_lines :: "page \<Rightarrow> str list" where
  "body_lines pg = filter (\<lambda>l. l \<noteq> []) (split newline (clean (body_inner_text pg)))"

text \<open>The community loop: each item becomes one entry of the dictionary.\<close>

fun community_loop :: "str list \<Rightarrow> (str, str) dict \<Rightarrow> (str, str) dict" where
  "community_loop [] community = community"
| "community_loop (item # items) community =
     (case re_match community_rx item of
        Some m \<Rightarrow>
          community_loop items (setitem community (clean (group m 1)) (clean (group m 2)))
      | None \<Rightarrow> community_loop items (setitem community item []))"

text \<open>One entry of the character list; the dictionary keys are the field names.\<close>

record character =
  character_name :: str
  character_class :: str
  character_level :: str
  is_main :: bool

text \<open>Class and level for the name line at \<open>i\<close>: read from line \<open>i + 1\<close> when there is one.\<close>

definition class_and_level :: "str list \<Rightarrow> int \<Rightarrow> py_error + (str \<times> str)" where
  "class_and_level created_raw i =
     (if i + 1 < int (length created_raw) then
        (case getitem created_raw (i + 1) of
           Inl e \<Rightarrow> Inl e
         | Inr cls_line \<Rightarrow>
             (case re_match class_level_rx cls_line of
                Some m \<Rightarrow> Inr (clean (group m 1), clean (group m 2))
              | None \<Rightarrow> Inr ([], [])))
      else Inr ([], []))"

text \<open>The \<open>while i < len(created_raw)\<close> loop, stepping by two.\<close>

function characters_loop ::
    "str list \<Rightarrow> int \<Rightarrow> character list \<Rightarrow> py_error + character list" where
  "characters_loop created_raw i characters =
     (if i < int (length created_raw) then
        (case getitem created_raw i of
           Inl e \<Rightarrow> Inl e
         | Inr name_line \<Rightarrow>
             (case class_and_level created_raw i of
                Inl e \<Rightarrow> Inl e
              | Inr (class_name, level) \<Rightarrow>
                  characters_loop created_raw (i + 2)
                    (if clean (replace (lit ''Main Character'') [] name_line) \<noteq> [] then
                       characters @
                         [\<lparr>character_name = clean (replace (lit ''Main Character'') [] name_line),
                           character_class = class_name,
                           character_level = level,
                           is_main = contains (lit ''Main Character'') name_line\<rparr>]
                     else characters)))
      else Inr characters)"
  by pat_completeness auto
termination
  by (relation "measure (\<lambda>(created_raw, i, characters). nat (int (length created_raw) - i))")
    auto

declare characters_loop.simps [simp del]

record profile =
  source_url :: str
  region :: "str option"
  family_name :: "str option"
  community :: "(str, str) dict"
  life_raw :: "str list"
  characters :: "character list"

definition parse_profile :: "page \<Rightarrow> str \<Rightarrow> py_error + profile" where
  "parse_profile pg url =
     (case anchor_scan (body_lines pg) of
        Inl e \<Rightarrow> Inl e
      | Inr (reg, fam) \<Rightarrow>
          (case characters_loop (extract_section_list pg (lit ''Created Characters'')) 0 [] of
             Inl e \<Rightarrow> Inl e
           | Inr chars \<Rightarrow>
               Inr \<lparr>source_url = url,
                    region = reg,
                    family_name = fam,
                    community =
                      community_loop (extract_section_list pg (lit ''Community Activities'')) [],
                    life_raw = extract_section_list pg (lit ''Life''),
                    characters = chars\<rparr>))"

section \<open>Configuration\<close>

datatype ProxyLayer = ProxyLayer (name: str) (proxies: "str list")

record Config =
  headless :: bool
  timeout_ms :: int
  navigation_wait :: str
  concurrency :: int
  viewport :: "(str, int) dict"
  locale_id :: str
  timezone_id :: str
  user_agent :: str
  retries :: int
  backoff_seconds :: real
  max_backoff_seconds :: real
  proxy_layers :: "ProxyLayer list"
  targets :: "str list"

section \<open>Proxy rotation\<close>

datatype ProxyPick = ProxyPick (layer: str) (proxy: "str option")

record ProxyManager =
  layers :: "(str \<times> str list) list"
  direct_fallback :: bool
  indices :: "str \<rightharpoonup> int"

text \<open>
  The constructor. \<open>random.shuffle\<close> is a parameter: \<open>shuffle k xs\<close> is the order it
  leaves the list of the \<open>k\<close>-th layer in.
\<close>

definition ProxyManager_init ::
    "(nat \<Rightarrow> str list \<Rightarrow> str list) \<Rightarrow> ProxyLayer list \<Rightarrow> bool \<Rightarrow> ProxyManager" where
  "ProxyManager_init shuffle ls direct =
     \<lparr>layers = map (\<lambda>(k, l). (name l, shuffle k (proxies l))) (enumerate 0 ls),
      direct_fallback = direct,
      indices = map_of (map (\<lambda>l. (name l, 0)) ls)\<rparr>"

text \<open>The loop of \<open>candidates\<close> over the layers.\<close>

fun candidates_loop ::
    "(str \<times> str list) list \<Rightarrow> (str \<rightharpoonup> int) \<Rightarrow> ProxyPick list \<Rightarrow>
     py_error + (ProxyPick list \<times> (str \<rightharpoonup> int))" where
  "candidates_loop [] ix picks = Inr (picks, ix)"
| "candidates_loop ((nm, prox) # rest) ix picks =
     (if prox = [] then candidates_loop rest ix picks
      else
        (case ix nm of
           None \<Rightarrow> Inl KeyError
         | Some n \<Rightarrow>
             (case getitem prox (n mod int (length prox)) of
                Inl e \<Rightarrow> Inl e
              | Inr p \<Rightarrow>
                  candidates_loop rest (ix(nm \<mapsto> n + 1)) (picks @ [ProxyPick nm (Some p)]))))"

definition candidates :: "ProxyManager \<Rightarrow> py_error + (ProxyPick list \<times> ProxyManager)" where
  "candidates pm =
     (case candidates_loop (layers pm) (indices pm) [] of
        Inl e \<Rightarrow> Inl e
      | Inr (picks, ix) \<Rightarrow>
          Inr (if direct_fallback pm then picks @ [ProxyPick (lit ''direct'') None] else picks,
               pm\<lparr>indices := ix\<rparr>))"

section \<open>Browser and scraper logic\<close>

text \<open>
  What a statement of \<open>scrape_one\<close> can raise. The handler
  \<open>except (PWTimeoutError, Exception)\<close> catches every exception but those that derive
  from \<open>BaseException\<close> only (a cancellation, a keyboard interrupt).
  \<open>ScrapingFailed url last_error\<close> is the \<open>RuntimeError\<close> of the last line.
\<close>

datatype exn =
    PWTimeoutError str
  | Exception str
  | BaseException str
  | PyError py_error
  | ScrapingFailed str "exn option"

fun caught :: "exn \<Rightarrow> bool" where
  "caught (BaseException m) = False"
| "caught e = True"

text \<open>
  The browser is outside the program: for each call of \<open>new_context\<close> a script says
  what the browser does with that session. \<open>new_context\<close> raises, or it returns a
  context; then \<open>new_page\<close>, \<open>goto\<close>, \<open>wait_for_timeout\<close> or a query of
  \<open>parse_profile\<close> raises, or the page is rendered; and \<open>close\<close> may raise.
\<close>

datatype body_script =
    NewPageRaises exn
  | GotoRaises exn
  | WaitRaises exn
  | ExtractRaises exn
  | Rendered page

datatype session_script =
    NewContextRaises exn
  | Context body_script "exn option"

type_synonym browser = "nat \<Rightarrow> ProxyPick \<Rightarrow> str \<Rightarrow> session_script"

text \<open>
  What a run does, in order: the calls it makes, and \<open>Handled e\<close> when the handler
  stores \<open>e\<close> in \<open>last_error\<close>. A session is named by the number of its
  \<open>new_context\<close> call.
\<close>

datatype event =
    CandidatesCalled "ProxyPick list"
  | NewContextFailed ProxyPick
  | NewContext nat ProxyPick
  | NewPage nat
  | Goto nat str
  | WaitForTimeout nat
  | ParseProfile nat
  | Handled exn
  | Close nat
  | Sleep real

record scraped = profile +
  data_proxy_layer :: str
  data_proxy :: "str option"

record run_state =
  pm :: ProxyManager
  calls :: nat
  trace :: "event list"
  last_error :: "exn option"

datatype outcome = Returned scraped | Raised exn

text \<open>The body of the \<open>try\<close> once the context exists: the calls made and how it ends.\<close>

fun try_body :: "nat \<Rightarrow> ProxyPick \<Rightarrow> str \<Rightarrow> body_script \<Rightarrow> event list \<times> (exn + scraped)" where
  "try_body k pick url (NewPageRaises e) = ([NewPage k], Inl e)"
| "try_body k pick url (GotoRaises e) = ([NewPage k, Goto k url], Inl e)"
| "try_body k pick url (WaitRaises e) = ([NewPage k, Goto k url, WaitForTimeout k], Inl e)"
| "try_body k pick url (ExtractRaises e) =
     ([NewPage k, Goto k url, WaitForTimeout k, ParseProfile k], Inl e)"
| "try_body k pick url (Rendered pg) =
     ([NewPage k, Goto k url, WaitForTimeout k, ParseProfile k],
      (case parse_profile pg url of
         Inl e \<Rightarrow> Inl (PyError e)
       | Inr data \<Rightarrow> Inr (profile.extend data (scraped.fields (layer pick) (proxy pick)))))"

text \<open>
  One iteration of the loop over the picks: \<open>try\<close>, \<open>except\<close>, \<open>finally\<close>. The result is
  \<open>Some\<close> when the iteration leaves \<open>scrape_one\<close> (a return or an exception that
  propagates) and \<open>None\<close> when the loop goes on.
\<close>

definition try_pick :: "browser \<Rightarrow> str \<Rightarrow> ProxyPick \<Rightarrow> run_state \<Rightarrow> outcome option \<times> run_state" where
  "try_pick br url pick st =
     (let k = calls st; st1 = st\<lparr>calls := k + 1\<rparr> in
      case br k pick url of
        NewContextRaises e \<Rightarrow>
          (let st2 = st1\<lparr>trace := trace st1 @ [NewContextFailed pick]\<rparr> in
           if caught e
           then (None, st2\<lparr>last_error := Some e, trace := trace st2 @ [Handled e]\<rparr>)
           else (Some (Raised e), st2))
      | Context body close_raises \<Rightarrow>
          (case try_body k pick url body of
             (evs, res) \<Rightarrow>
               (let st2 = st1\<lparr>trace := trace st1 @ [NewContext k pick] @ evs\<rparr>;
                    st3 = (case res of
                             Inl e \<Rightarrow>
                               if caught e
                               then st2\<lparr>last_error := Some e, trace := trace st2 @ [Handled e]\<rparr>
                               else st2
                           | Inr data \<Rightarrow> st2);
                    st4 = st3\<lparr>trace := trace st3 @ [Close k]\<rparr>
                in case close_raises of
                     Some ce \<Rightarrow> (Some (Raised ce), st4)
                   | None \<Rightarrow>
                       (case res of
                          Inr data \<Rightarrow> (Some (Returned data), st4)
                        | Inl e \<Rightarrow> if caught e then (None, st4) else (Some (Raised e), st4)))))"

fun try_picks :: "browser \<Rightarrow> str \<Rightarrow> ProxyPick list \<Rightarrow> run_state \<Rightarrow> outcome option \<times> run_state" where
  "try_picks br url [] st = (None, st)"
| "try_picks br url (pick # picks) st =
     (case try_pick br url pick st of
        (Some r, st') \<Rightarrow> (Some r, st')
      | (None, st') \<Rightarrow> try_picks br url picks st')"

text \<open>
  \<open>2 ** k\<close> as the float that the product with \<open>cfg.backoff_seconds\<close> converts it to.
  For \<open>k \<ge> 0\<close> the power is an \<open>int\<close>, and converting an \<open>int\<close> of \<open>2 ** 1024\<close> or more
  to a float raises \<open>OverflowError\<close>; for \<open>k < 0\<close> the power is a float already.
  Apart from this overflow floats are taken as real numbers, so the configured base
  and maximum are finite numbers. For a base that is not negative this loses nothing:
  scaling a float by a power of two is exact, and a product beyond the largest float
  is infinite, which \<open>min\<close> replaces with the maximum as the minimum of the real
  numbers does.
\<close>

definition float_of_power :: "int \<Rightarrow> py_error + real" where
  "float_of_power k =
     (if 1024 \<le> k then Inl OverflowError
      else if 0 \<le> k then Inr (2 ^ nat k)
      else Inr (1 / 2 ^ nat (- k)))"

text \<open>\<open>min(cfg.max_backoff_seconds, cfg.backoff_seconds * (2 ** (attempt - 1)))\<close>\<close>

definition backoff :: "Config \<Rightarrow> int \<Rightarrow> py_error + real" where
  "backoff cfg attempt =
     (case float_of_power (attempt - 1) of
        Inl e \<Rightarrow> Inl e
      | Inr p \<Rightarrow> Inr (min (max_backoff_seconds cfg) (backoff_seconds cfg * p)))"

text \<open>
  The loop over the attempts, and the \<open>raise\<close> after it. The delay is computed
  outside the \<open>try\<close>, so an exception of that computation leaves \<open>scrape_one\<close>.
\<close>

fun attempts :: "Config \<Rightarrow> browser \<Rightarrow> str \<Rightarrow> int list \<Rightarrow> run_state \<Rightarrow> outcome \<times> run_state" where
  "attempts cfg br url [] st = (Raised (ScrapingFailed url (last_error st)), st)"
| "attempts cfg br url (attempt # rest) st =
     (case candidates (pm st) of
        Inl e \<Rightarrow> (Raised (PyError e), st)
      | Inr (picks, pm') \<Rightarrow>
          (case try_picks br url picks
                  (st\<lparr>pm := pm', trace := trace st @ [CandidatesCalled picks]\<rparr>) of
             (Some r, st') \<Rightarrow> (r, st')
           | (None, st') \<Rightarrow>
               (case backoff cfg attempt of
                  Inl e \<Rightarrow> (Raised (PyError e), st')
                | Inr delay \<Rightarrow>
                    attempts cfg br url rest (st'\<lparr>trace := trace st' @ [Sleep delay]\<rparr>))))"

definition scrape_one :: "Config \<Rightarrow> ProxyManager \<Rightarrow> browser \<Rightarrow> str \<Rightarrow> outcome \<times> run_state" where
  "scrape_one cfg manager br url =
     attempts cfg br url [1 .. retries cfg]
       \<lparr>pm = manager, calls = 0, trace = [], last_error = None\<rparr>"

section \<open>Concrete pages and configurations\<close>

text \<open>A page whose visible text has the three lines of the profile header and no section.\<close>

definition page_EU_Doe :: page where
  "page_EU_Doe =
     \<lparr>body_inner_text =
        lit ''Adventurer Profile'' @ [newline] @ lit ''EU'' @ [newline] @ lit ''Doe'',
      heading_count = (\<lambda>h. 0),
      items_inner_texts = (\<lambda>h. [])\<rparr>"

definition example_url :: str where
  "example_url = lit ''https://example.org/profile''"

text \<open>
  Three layers, the second one empty, and the manager built from them with a shuffle
  that leaves every list as it is.
\<close>

definition example_layers :: "ProxyLayer list" where
  "example_layers =
     [ProxyLayer (lit ''dc'') [lit ''p1'', lit ''p2''],
      ProxyLayer (lit ''spare'') [],
      ProxyLayer (lit ''res'') [lit ''q1'']]"

definition example_manager :: ProxyManager where
  "example_manager = ProxyManager_init (\<lambda>k xs. xs) example_layers True"

text \<open>
  The configuration with the defaults of \<open>load_config\<close>, but two retries, and a browser
  in which every navigation times out.
\<close>

definition example_config :: Config where
  "example_config =
     \<lparr>headless = True, timeout_ms = 25000, navigation_wait = lit ''domcontentloaded'',
      concurrency = 3, viewport = [(lit ''width'', 1280), (lit ''height'', 720)],
      locale_id = lit ''en-US'', timezone_id = lit ''Europe/London'',
      user_agent = lit ''Mozilla/5.0'', retries = 2, backoff_seconds = 12 / 10,
      max_backoff_seconds = 10, proxy_layers = example_layers, targets = [example_url]\<rparr>"

definition timeout_browser :: browser where
  "timeout_browser = (\<lambda>k pick url. Context (GotoRaises (PWTimeoutError (lit ''Timeout''))) None)"

text \<open>A browser that times out for every proxy and renders the page on a direct connection.\<close>

definition direct_only_browser :: browser where
  "direct_only_browser =
     (\<lambda>k pick url.
        if proxy pick = None then Context (Rendered page_EU_Doe) None
        else Context (GotoRaises (PWTimeoutError (lit ''Timeout''))) None)"

text \<open>
  Two layers that were given no name in the configuration file: \<open>load_config\<close> calls
  both of them \<open>unnamed\<close>.
\<close>

definition unnamed_layers :: "ProxyLayer list" where
  "unnamed_layers =
     [ProxyLayer (lit ''unnamed'') [lit ''p1'', lit ''p2''],
      ProxyLayer (lit ''unnamed'') [lit ''q1'', lit ''q2'']]"

definition unnamed_manager :: ProxyManager where
  "unnamed_manager = ProxyManager_init (\<lambda>k xs. xs) unnamed_layers True"

section \<open>The sub-parses as the specification words them\<close>

text \<open>
  The character sub-parse in the specification's words: the lines are consumed in
  pairs, a name line and a class/level line. The marker is stripped from the name and
  sets the flag; a class/level line that matches gives its two normalised captures,
  one that does not match (or is missing) gives two empty strings; the entry is
  dropped only when the stripped name is empty.
\<close>

definition spec_character_entry :: "str \<Rightarrow> str option \<Rightarrow> character list" where
  "spec_character_entry name_line cls_line =
     (let stripped = clean (replace (lit ''Main Character'') [] name_line);
          cl = (case cls_line of
                  None \<Rightarrow> ([], [])
                | Some l \<Rightarrow>
                    (case re_match class_level_rx l of
                       None \<Rightarrow> ([], [])
                     | Some m \<Rightarrow> (clean (group m 1), clean (group m 2))))
      in if stripped = [] then []
         else [\<lparr>character_name = stripped,
                 character_class = fst cl,
                 character_level = snd cl,
                 is_main = contains (lit ''Main Character'') name_line\<rparr>])"

fun spec_characters :: "str list \<Rightarrow> character list" where
  "spec_characters [] = []"
| "spec_characters [name_line] = spec_character_entry name_line None"
| "spec_characters (name_line # cls_line # rest) =
     spec_character_entry name_line (Some cls_line) @ spec_characters rest"




text \<open>The first element of a list, if there is one.\<close>

definition first_of :: "'a list \<Rightarrow> 'a option" where
  "first_of xs = (case xs of [] \<Rightarrow> None | x # _ \<Rightarrow> Some x)"

section \<open>Successive calls and layer invariants\<close>

text \<open>
  The constructor gives every layer name a counter and nothing removes one:
  \<open>keys_ok\<close> says that every layer name is a key of the counter dictionary.
\<close>

definition keys_ok :: "ProxyManager \<Rightarrow> bool" where
  "keys_ok m \<longleftrightarrow> fst ` set (layers m) \<subseteq> dom (indices m)"

text \<open>The layers that have at least one endpoint.\<close>

definition nonempty_layers :: "ProxyManager \<Rightarrow> (str \<times> str list) list" where
  "nonempty_layers m = filter (\<lambda>(nm, prox). prox \<noteq> []) (layers m)"

text \<open>\<open>k\<close> calls of \<open>candidates\<close>, one after the other: the lists of picks, in call order.\<close>

fun candidates_times ::
    "nat \<Rightarrow> ProxyManager \<Rightarrow> py_error + (ProxyPick list list \<times> ProxyManager)" where
  "candidates_times 0 m = Inr ([], m)"
| "candidates_times (Suc k) m =
     (case candidates m of
        Inl e \<Rightarrow> Inl e
      | Inr (picks, m') \<Rightarrow>
          (case candidates_times k m' of
             Inl e \<Rightarrow> Inl e
           | Inr (pss, m'') \<Rightarrow> Inr (picks # pss, m'')))"

text \<open>What a call returned, and the counter of a layer name after it.\<close>

definition returned_picks :: "py_error + ('a \<times> ProxyManager) \<Rightarrow> 'a option" where
  "returned_picks r = (case r of Inl e \<Rightarrow> None | Inr (picks, m) \<Rightarrow> Some picks)"

definition counter_after :: "py_error + ('a \<times> ProxyManager) \<Rightarrow> str \<Rightarrow> int option" where
  "counter_after r nm = (case r of Inl e \<Rightarrow> None | Inr (picks, m) \<Rightarrow> indices m nm)"

section \<open>Reading a trace\<close>

text \<open>The delays of the backoff suspensions of a trace, in order.\<close>

fun sleeps :: "event list \<Rightarrow> real list" where
  "sleeps [] = []"
| "sleeps (Sleep d # es) = d # sleeps es"
| "sleeps (e # es) = sleeps es"

text \<open>The number of attempts: each attempt starts with one call of \<open>candidates\<close>.\<close>

fun attempts_made :: "event list \<Rightarrow> nat" where
  "attempts_made [] = 0"
| "attempts_made (CandidatesCalled picks # es) = Suc (attempts_made es)"
| "attempts_made (e # es) = attempts_made es"

text \<open>The error the handler stored last, if it stored any.\<close>

fun last_handled :: "event list \<Rightarrow> exn option \<Rightarrow> exn option" where
  "last_handled [] seen = seen"
| "last_handled (Handled e # es) seen = last_handled es (Some e)"
| "last_handled (e # es) seen = last_handled es seen"

text \<open>
  A candidate fails when its session raises an exception that the handler catches and
  \<open>close\<close> raises nothing; it fails navigation when the exception is raised by \<open>goto\<close>.
\<close>

fun candidate_fails :: "session_script \<Rightarrow> bool" where
  "candidate_fails (NewContextRaises e) = caught e"
| "candidate_fails (Context (NewPageRaises e) None) = caught e"
| "candidate_fails (Context (GotoRaises e) None) = caught e"
| "candidate_fails (Context (WaitRaises e) None) = caught e"
| "candidate_fails (Context (ExtractRaises e) None) = caught e"
| "candidate_fails (Context body close_raises) = False"

fun fails_navigation :: "session_script \<Rightarrow> bool" where
  "fails_navigation (Context (GotoRaises e) None) = caught e"
| "fails_navigation script = False"

text \<open>
  The discipline of sessions, checked along a trace. The state is the session that is
  open, if any, and the sessions opened so far. A session can be opened only when none
  is open and only under a number not used before; a page is created, navigated and
  parsed only in the open session; \<open>close\<close> closes the open session; and asking for
  candidates, a failing \<open>new_context\<close> and a backoff suspension happen only when no
  session is open.
\<close>

type_synonym sessions = "nat option \<times> nat list"

fun session_step :: "event \<Rightarrow> sessions \<Rightarrow> sessions option" where
  "session_step (NewContext k pick) (opened, used) =
     (if opened = None \<and> k \<notin> set used then Some (Some k, k # used) else None)"
| "session_step (NewPage k) (opened, used) =
     (if opened = Some k then Some (opened, used) else None)"
| "session_step (Goto k url) (opened, used) =
     (if opened = Some k then Some (opened, used) else None)"
| "session_step (WaitForTimeout k) (opened, used) =
     (if opened = Some k then Some (opened, used) else None)"
| "session_step (ParseProfile k) (opened, used) =
     (if opened = Some k then Some (opened, used) else None)"
| "session_step (Close k) (opened, used) =
     (if opened = Some k then Some (None, used) else None)"
| "session_step (Handled e) (opened, used) = Some (opened, used)"
| "session_step (CandidatesCalled picks) (opened, used) =
     (if opened = None then Some (opened, used) else None)"
| "session_step (NewContextFailed pick) (opened, used) =
     (if opened = None then Some (opened, used) else None)"
| "session_step (Sleep d) (opened, used) =
     (if opened = None then Some (opened, used) else None)"

fun session_run :: "event list \<Rightarrow> sessions \<Rightarrow> sessions option" where
  "session_run [] s = Some s"
| "session_run (e # es) s =
     (case session_step e s of None \<Rightarrow> None | Some s' \<Rightarrow> session_run es s')"

text \<open>A trace keeps the discipline and leaves no session open.\<close>

definition sessions_released :: "event list \<Rightarrow> bool" where
  "sessions_released tr =
     (case session_run tr (None, []) of
        None \<Rightarrow> False
      | Some (opened, used) \<Rightarrow> opened = None)"

section \<open>The extraction pipeline\<close>

subsection \<open>Normalisation removes every newline\<close>

lemma sub_spaces_chars: "c \<in> set (sub_spaces t) \<Longrightarrow> \<not> isspace c \<or> c = 32"
proof (induction t rule: sub_spaces.induct)
  case 1
  then show ?case by simp
next
  case (2 d ds)
  then show ?case by (auto split: if_splits)
qed

lemma set_strip: "set (strip s) \<subseteq> set s"
  by (auto simp: strip_def dest!: set_dropWhileD)

lemma isspace_newline: "isspace newline"
  by (simp add: isspace_def newline_def)

lemma newline_notin_clean: "newline \<notin> set (clean t)"
proof
  assume "newline \<in> set (clean t)"
  then have "newline \<in> set (sub_spaces t)"
    using set_strip by (auto simp: clean_def)
  then have "\<not> isspace newline \<or> newline = 32"
    by (rule sub_spaces_chars)
  then show False
    by (simp add: isspace_newline) (simp add: newline_def)
qed

lemma split_no_sep: "sep \<notin> set s \<Longrightarrow> split sep s = [s]"
  by (induction s) auto

lemma body_lines_cases:
  "body_lines pg = (if clean (body_inner_text pg) = [] then [] else [clean (body_inner_text pg)])"
  by (simp add: body_lines_def split_no_sep newline_notin_clean)

subsection \<open>The anchor scan\<close>

lemma getitem_in_range: "0 \<le> i \<Longrightarrow> i < int (length xs) \<Longrightarrow> getitem xs i = Inr (xs ! nat i)"
  by (simp add: getitem_def)

lemma anchor_scan_Nil: "anchor_scan [] = Inr (None, None)"
  by (simp add: anchor_scan_def)

lemma anchor_scan_single: "anchor_scan [l] = Inr (None, None)"
  by (simp add: anchor_scan_def slice_def py_range_def)

lemma anchor_scan_body_lines: "anchor_scan (body_lines pg) = Inr (None, None)"
  by (simp add: body_lines_cases anchor_scan_Nil anchor_scan_single)

lemma anchor_scan_absent:
  "lit ''Adventurer Profile'' \<notin> set lines \<Longrightarrow> anchor_scan lines = Inr (None, None)"
  by (simp add: anchor_scan_def)

lemma list_index_member:
  "x \<in> set xs \<Longrightarrow> \<exists>k. list_index xs x = Inr k \<and> 0 \<le> k \<and> k < int (length xs)"
  by (induction xs) auto

lemma scan_window_total:
  "\<forall>idx \<in> set idxs. 0 \<le> idx \<and> idx + 1 < int (length window) \<Longrightarrow>
   \<exists>r. scan_window window idxs = Inr r"
proof (induction idxs)
  case Nil
  then show ?case by simp
next
  case (Cons idx idxs)
  then have a: "getitem window idx = Inr (window ! nat idx)"
    and b: "getitem window (idx + 1) = Inr (window ! nat (idx + 1))"
    by (simp_all add: getitem_in_range)
  from Cons show ?case
    by (cases "re_fullmatch region_rx (window ! nat idx)") (simp_all add: a b)
qed

lemma anchor_scan_total: "\<exists>r. anchor_scan lines = Inr r"
proof (cases "lit ''Adventurer Profile'' \<in> set lines")
  case False
  then show ?thesis by (simp add: anchor_scan_absent)
next
  case True
  from list_index_member[OF True]
  obtain k where k: "list_index lines (lit ''Adventurer Profile'') = Inr k"
    by (elim exE conjE)
  define window where "window = slice lines k (k + 15)"
  have "\<forall>idx \<in> set (py_range (int (length window) - 1)).
          0 \<le> idx \<and> idx + 1 < int (length window)"
    by (simp add: py_range_def)
  from scan_window_total[OF this]
  obtain r where "scan_window window (py_range (int (length window) - 1)) = Inr r"
    by (elim exE)
  then have "anchor_scan lines = Inr r"
    unfolding anchor_scan_def Let_def window_def using True k by simp
  then show ?thesis by (rule exI)
qed

subsection \<open>The section lists and the character loop\<close>

lemma extract_section_list_missing:
  "heading_count pg h = 0 \<Longrightarrow> extract_section_list pg h = []"
  by (simp add: extract_section_list_def)

lemma class_and_level_total:
  "0 \<le> i \<Longrightarrow> \<exists>cl lv. class_and_level created_raw i = Inr (cl, lv)"
  by (cases "re_match class_level_rx (created_raw ! nat (i + 1))")
     (simp_all add: class_and_level_def getitem_in_range)

lemma characters_loop_total: "0 \<le> i \<Longrightarrow> \<exists>cs. characters_loop created_raw i acc = Inr cs"
proof (induction created_raw i acc rule: characters_loop.induct)
  case (1 created_raw i characters)
  show ?case
  proof (cases "i < int (length created_raw)")
    case False
    then show ?thesis by (subst characters_loop.simps) simp
  next
    case True
    with "1.prems" obtain name_line where g: "getitem created_raw i = Inr name_line"
      by (auto simp: getitem_def Let_def)
    obtain cl lv where c: "class_and_level created_raw i = Inr (cl, lv)"
      using class_and_level_total[OF "1.prems"] by blast
    from "1.prems" have "0 \<le> i + 2" by simp
    from "1.IH"[OF True g c refl this] show ?thesis
      by (subst characters_loop.simps) (simp add: True g c)
  qed
qed

lemma characters_loop_Nil: "characters_loop [] 0 [] = Inr []"
  by (subst characters_loop.simps) simp

lemma characters_loop_from_0: "\<exists>cs. characters_loop created_raw 0 [] = Inr cs"
  by (rule characters_loop_total) simp

lemma parse_profile_eq:
  assumes "characters_loop (extract_section_list pg (lit ''Created Characters'')) 0 [] = Inr cs"
  shows "parse_profile pg url =
     Inr \<lparr>source_url = url, region = None, family_name = None,
          community = community_loop (extract_section_list pg (lit ''Community Activities'')) [],
          life_raw = extract_section_list pg (lit ''Life''),
          characters = cs\<rparr>"
  by (simp add: parse_profile_def anchor_scan_body_lines assms)

lemma parse_profile_page_EU_Doe:
  "parse_profile page_EU_Doe url =
     Inr \<lparr>source_url = url, region = None, family_name = None,
          community = [], life_raw = [], characters = []\<rparr>"
  by (simp add: parse_profile_def anchor_scan_body_lines extract_section_list_def
      page_EU_Doe_def characters_loop_Nil)

subsection \<open>Region and family name\<close>

text \<open>
  Claim C3. For every body text, \<open>parse_profile\<close> returns a record whose region and
  family name are both \<open>None\<close>: normalising the text turns every newline into a space
  before the text is split at newlines, so there is at most one line, and the scan of
  the window after the anchor line has nothing to look at.
\<close>

theorem parse_profile_region_family_always_unset:
  "length (body_lines pg) \<le> 1 \<and>
   (\<exists>r. parse_profile pg url = Inr r \<and> region r = None \<and> family_name r = None)"
proof
  show "length (body_lines pg) \<le> 1" by (simp add: body_lines_cases)
next
  from characters_loop_from_0[of "extract_section_list pg (lit ''Created Characters'')"]
  obtain cs where
    "characters_loop (extract_section_list pg (lit ''Created Characters'')) 0 [] = Inr cs"
    by (elim exE)
  from parse_profile_eq[OF this]
  show "\<exists>r. parse_profile pg url = Inr r \<and> region r = None \<and> family_name r = None"
    by simp
qed

theorem parse_profile_region_family_always_unset_witness:
  "length (body_lines page_EU_Doe) \<le> 1 \<and>
   (\<exists>r. parse_profile page_EU_Doe example_url = Inr r \<and> region r = None \<and>
        family_name r = None)"
  by (rule parse_profile_region_family_always_unset)

text \<open>
  Claim C2. The page whose visible text is the three lines \<open>Adventurer Profile\<close>,
  \<open>EU\<close>, \<open>Doe\<close>: split at newlines the text gives these three lines, and the scan of
  these lines gives region \<open>EU\<close> and family name \<open>Doe\<close>; but \<open>parse_profile\<close>
  normalises the text first, gets the single line \<open>Adventurer Profile EU Doe\<close>, and
  returns neither a region nor a family name.
\<close>

theorem parse_profile_EU_Doe_page_yields_no_region:
  "filter (\<lambda>l. l \<noteq> []) (split newline (body_inner_text page_EU_Doe)) =
     [lit ''Adventurer Profile'', lit ''EU'', lit ''Doe''] \<and>
   anchor_scan [lit ''Adventurer Profile'', lit ''EU'', lit ''Doe''] =
     Inr (Some (lit ''EU''), Some (lit ''Doe'')) \<and>
   body_lines page_EU_Doe = [lit ''Adventurer Profile EU Doe''] \<and>
   parse_profile page_EU_Doe example_url =
     Inr \<lparr>source_url = example_url, region = None, family_name = None,
          community = [], life_raw = [], characters = []\<rparr>"
proof (intro conjI)
  show "filter (\<lambda>l. l \<noteq> []) (split newline (body_inner_text page_EU_Doe)) =
     [lit ''Adventurer Profile'', lit ''EU'', lit ''Doe'']"
    by (simp add: page_EU_Doe_def lit_def newline_def)
next
  show "anchor_scan [lit ''Adventurer Profile'', lit ''EU'', lit ''Doe''] =
     Inr (Some (lit ''EU''), Some (lit ''Doe''))"
    by (simp add: anchor_scan_def lit_def slice_def py_range_def upto.simps getitem_def
        re_fullmatch_def region_rx_def upper_AZ_def)
next
  show "body_lines page_EU_Doe = [lit ''Adventurer Profile EU Doe'']"
    by (simp add: body_lines_def page_EU_Doe_def clean_def strip_def lit_def newline_def
        isspace_def)
next
  show "parse_profile page_EU_Doe example_url =
     Inr \<lparr>source_url = example_url, region = None, family_name = None,
          community = [], life_raw = [], characters = []\<rparr>"
    by (rule parse_profile_page_EU_Doe)
qed

subsection \<open>Extraction never raises\<close>

text \<open>
  Claim C9. For every page and URL \<open>parse_profile\<close> returns a record and raises
  nothing. When the anchor line is missing, region and family name are unset; when a
  heading is missing, its list (and what is parsed from it) is empty. The two stages
  that index into lists, the anchor scan and the character loop, return a result on
  every list of lines, whatever the lines are.
\<close>

theorem parse_profile_never_raises:
  "(\<exists>r. parse_profile pg url = Inr r \<and> source_url r = url \<and>
        (lit ''Adventurer Profile'' \<notin> set (body_lines pg) \<longrightarrow>
           region r = None \<and> family_name r = None) \<and>
        (heading_count pg (lit ''Community Activities'') = 0 \<longrightarrow> community r = []) \<and>
        (heading_count pg (lit ''Life'') = 0 \<longrightarrow> life_raw r = []) \<and>
        (heading_count pg (lit ''Created Characters'') = 0 \<longrightarrow> characters r = [])) \<and>
   (\<exists>r. anchor_scan lines = Inr r) \<and>
   (lit ''Adventurer Profile'' \<notin> set lines \<longrightarrow> anchor_scan lines = Inr (None, None)) \<and>
   (\<exists>cs. characters_loop created_raw 0 [] = Inr cs)"
proof (intro conjI)
  from characters_loop_from_0[of "extract_section_list pg (lit ''Created Characters'')"]
  obtain cs where
    cs: "characters_loop (extract_section_list pg (lit ''Created Characters'')) 0 [] = Inr cs"
    by (elim exE)
  have c3: "heading_count pg (lit ''Created Characters'') = 0 \<longrightarrow> cs = []"
  proof
    assume "heading_count pg (lit ''Created Characters'') = 0"
    then have "extract_section_list pg (lit ''Created Characters'') = []"
      by (rule extract_section_list_missing)
    with cs show "cs = []" by (simp add: characters_loop_Nil)
  qed
  show "\<exists>r. parse_profile pg url = Inr r \<and> source_url r = url \<and>
        (lit ''Adventurer Profile'' \<notin> set (body_lines pg) \<longrightarrow>
           region r = None \<and> family_name r = None) \<and>
        (heading_count pg (lit ''Community Activities'') = 0 \<longrightarrow> community r = []) \<and>
        (heading_count pg (lit ''Life'') = 0 \<longrightarrow> life_raw r = []) \<and>
        (heading_count pg (lit ''Created Characters'') = 0 \<longrightarrow> characters r = [])"
    using c3 by (simp add: parse_profile_eq[OF cs] extract_section_list_missing)
next
  show "\<exists>r. anchor_scan lines = Inr r" by (rule anchor_scan_total)
next
  show "lit ''Adventurer Profile'' \<notin> set lines \<longrightarrow> anchor_scan lines = Inr (None, None)"
    by (simp add: anchor_scan_absent)
next
  show "\<exists>cs. characters_loop created_raw 0 [] = Inr cs"
    by (rule characters_loop_from_0)
qed

theorem parse_profile_never_raises_witness:
  "(\<exists>r. parse_profile page_EU_Doe example_url = Inr r \<and> source_url r = example_url \<and>
        region r = None \<and> family_name r = None \<and> community r = [] \<and> life_raw r = [] \<and>
        characters r = []) \<and>
   anchor_scan [lit ''Doe''] = Inr (None, None) \<and>
   (\<exists>cs. characters_loop [lit ''Jane''] 0 [] = Inr cs)"
proof -
  have h1: "lit ''Adventurer Profile'' \<notin> set (body_lines page_EU_Doe)"
    by (simp add: body_lines_def page_EU_Doe_def clean_def strip_def lit_def newline_def
        isspace_def)
  have h2: "heading_count page_EU_Doe h = 0" for h
    by (simp add: page_EU_Doe_def)
  have h3: "lit ''Adventurer Profile'' \<notin> set [lit ''Doe'']"
    by (simp add: lit_def)
  from parse_profile_never_raises[of page_EU_Doe example_url "[lit ''Doe'']" "[lit ''Jane'']"]
  show ?thesis using h1 h2 h3 by simp
qed

subsection \<open>The character sub-parse\<close>

lemma getitem_append_length: "getitem (pre @ x # xs) (int (length pre)) = Inr x"
  by (simp add: getitem_def)

lemma getitem_append_Suc_length: "getitem (pre @ x # y # xs) (int (length pre) + 1) = Inr y"
  by (simp add: getitem_def nat_add_distrib nth_append)

lemma characters_loop_spec_gen:
  "characters_loop (pre @ xs) (int (length pre)) acc = Inr (acc @ spec_characters xs)"
proof (induction xs arbitrary: pre acc rule: spec_characters.induct)
  case 1
  show ?case by (subst characters_loop.simps) simp
next
  case (2 name_line)
  have r: "characters_loop (pre @ [name_line]) (int (length pre) + 2) acc' = Inr acc'" for acc'
    by (subst characters_loop.simps) simp
  show ?case
    by (subst characters_loop.simps)
       (simp add: getitem_append_length class_and_level_def spec_character_entry_def r)
next
  case (3 name_line cls_line rest)
  have e: "pre @ name_line # cls_line # rest = (pre @ [name_line, cls_line]) @ rest"
    by simp
  have l: "int (length pre) + 2 = int (length (pre @ [name_line, cls_line]))"
    by simp
  have ih: "characters_loop (pre @ name_line # cls_line # rest) (int (length pre) + 2) acc' =
      Inr (acc' @ spec_characters rest)" for acc'
    unfolding e l by (rule "3.IH")
  show ?case
    by (subst characters_loop.simps)
       (simp add: getitem_append_length getitem_append_Suc_length class_and_level_def
          spec_character_entry_def ih split: option.splits)
qed

text \<open>
  Claim C5. On every list of collected lines the character loop returns what the
  specification describes: the lines taken in pairs, the marker stripped from the name
  and setting the flag, class and level the two normalised captures of a matching
  class/level line and empty otherwise, and an entry left out only when its stripped
  name is empty. The lines \<open>Jane Main Character\<close>, \<open>Warrior Lv 60\<close> give the one
  entry Jane, Warrior, 60, main; an unmatched class/level line keeps the name with an
  empty class and level; a name line that is only the marker gives no entry.
\<close>

theorem characters_loop_refines_spec:
  "characters_loop created_raw 0 [] = Inr (spec_characters created_raw) \<and>
   characters_loop [lit ''Jane Main Character'', lit ''Warrior Lv 60''] 0 [] =
     Inr [\<lparr>character_name = lit ''Jane'', character_class = lit ''Warrior'',
           character_level = lit ''60'', is_main = True\<rparr>] \<and>
   characters_loop [lit ''Jane Main Character'', lit ''Level sixty''] 0 [] =
     Inr [\<lparr>character_name = lit ''Jane'', character_class = [],
           character_level = [], is_main = True\<rparr>] \<and>
   characters_loop [lit ''Main Character'', lit ''Warrior Lv 60'', lit ''Bob''] 0 [] =
     Inr [\<lparr>character_name = lit ''Bob'', character_class = [],
           character_level = [], is_main = False\<rparr>]"
proof (intro conjI)
  show g: "characters_loop created_raw 0 [] = Inr (spec_characters created_raw)" for created_raw
    using characters_loop_spec_gen[of "[]" created_raw "[]"] by simp
  show "characters_loop [lit ''Jane Main Character'', lit ''Warrior Lv 60''] 0 [] =
     Inr [\<lparr>character_name = lit ''Jane'', character_class = lit ''Warrior'',
           character_level = lit ''60'', is_main = True\<rparr>]"
    unfolding g
    by (simp add: spec_character_entry_def lit_def clean_def strip_def isspace_def
        re_match_def class_level_rx_def dot_def newline_def chr_in_def group_def)
  show "characters_loop [lit ''Jane Main Character'', lit ''Level sixty''] 0 [] =
     Inr [\<lparr>character_name = lit ''Jane'', character_class = [],
           character_level = [], is_main = True\<rparr>]"
    unfolding g
    by (simp add: spec_character_entry_def lit_def clean_def strip_def isspace_def
        re_match_def class_level_rx_def dot_def newline_def chr_in_def group_def)
  show "characters_loop [lit ''Main Character'', lit ''Warrior Lv 60'', lit ''Bob''] 0 [] =
     Inr [\<lparr>character_name = lit ''Bob'', character_class = [],
           character_level = [], is_main = False\<rparr>]"
    unfolding g
    by (simp add: spec_character_entry_def lit_def clean_def strip_def isspace_def
        re_match_def class_level_rx_def dot_def newline_def chr_in_def group_def)
qed

subsection \<open>The community sub-parse\<close>

lemma first_of_simps [simp]: "first_of [] = None" "first_of (x # xs) = Some x"
  by (simp_all add: first_of_def)
























section \<open>The proxy rotation\<close>

lemma getitem_mod: "prox \<noteq> [] \<Longrightarrow>
  getitem prox (n mod int (length prox)) = Inr (prox ! nat (n mod int (length prox)))"
  by (simp add: getitem_def)

lemma nth_mod_in_set: "prox \<noteq> [] \<Longrightarrow> prox ! nat (n mod int (length prox)) \<in> set prox"
  by (rule nth_mem) (simp add: nat_less_iff)

lemma candidates_loop_shape:
  "fst ` set ls \<subseteq> dom ix \<Longrightarrow>
   \<exists>picks ix'. candidates_loop ls ix acc = Inr (acc @ picks, ix') \<and> dom ix' = dom ix \<and>
     list_all2 (\<lambda>pick (nm, prox). layer pick = nm \<and> (\<exists>p \<in> set prox. proxy pick = Some p))
       picks (filter (\<lambda>(nm, prox). prox \<noteq> []) ls)"
proof (induction ls arbitrary: ix acc)
  case Nil
  then show ?case by simp
next
  case (Cons l ls)
  obtain nm prox where l: "l = (nm, prox)" by (cases l)
  show ?case
  proof (cases "prox = []")
    case True
    with Cons l show ?thesis by simp
  next
    case False
    from Cons.prems l obtain n where n: "ix nm = Some n" by auto
    let ?ix = "ix(nm \<mapsto> n + 1)"
    let ?p = "ProxyPick nm (Some (prox ! nat (n mod int (length prox))))"
    have "fst ` set ls \<subseteq> dom ?ix" using Cons.prems by auto
    from Cons.IH[OF this, of "acc @ [?p]"]
    obtain picks ix' where
      r: "candidates_loop ls ?ix (acc @ [?p]) = Inr ((acc @ [?p]) @ picks, ix')"
      and d: "dom ix' = dom ?ix"
      and a: "list_all2 (\<lambda>pick (nm, prox). layer pick = nm \<and> (\<exists>p \<in> set prox. proxy pick = Some p))
       picks (filter (\<lambda>(nm, prox). prox \<noteq> []) ls)"
      by blast
    have "candidates_loop (l # ls) ix acc = Inr (acc @ (?p # picks), ix')"
      using False by (simp add: l n getitem_mod r)
    moreover have "dom ix' = dom ix" using d n by auto
    moreover have "list_all2 (\<lambda>pick (nm, prox). layer pick = nm \<and> (\<exists>p \<in> set prox. proxy pick = Some p))
       (?p # picks) (filter (\<lambda>(nm, prox). prox \<noteq> []) (l # ls))"
      using False a by (simp add: l nth_mod_in_set)
    ultimately show ?thesis by blast
  qed
qed

lemma keys_ok_init: "keys_ok (ProxyManager_init shuffle ls direct)"
proof -
  have "fst ` set (map (\<lambda>(k, l). (name l, shuffle k (proxies l))) (enumerate 0 ls)) = name ` set ls"
    (is "?L = ?R")
  proof -
    have "?L = (\<lambda>kl. name (snd kl)) ` set (enumerate 0 ls)"
      by (auto simp: image_iff split: prod.splits) force+
    also have "\<dots> = name ` (snd ` set (enumerate 0 ls))"
      by (simp add: image_image)
    also have "snd ` set (enumerate 0 ls) = set ls"
      by (metis list.set_map map_snd_enumerate)
    finally show ?thesis .
  qed
  moreover have "dom (map_of (map (\<lambda>l. (name l, 0::int)) ls)) = name ` set ls"
    by (simp add: dom_map_of_conv_image_fst image_image)
  ultimately show ?thesis
    by (simp add: keys_ok_def ProxyManager_init_def)
qed

text \<open>
  Claim C6. In every state of the manager in which each layer name has its counter
  (the constructor gives such a state and \<open>candidates\<close> keeps it), with direct
  fallback enabled, one call of \<open>candidates\<close> returns one pick for each non-empty
  layer, in the order of the layers, each with an endpoint of its layer, and after them
  exactly one pick \<open>direct\<close> with no endpoint; empty layers give no pick.
\<close>

theorem candidates_one_pick_per_nonempty_layer:
  assumes "keys_ok m" and "direct_fallback m"
  shows "\<exists>layer_picks m'.
           candidates m = Inr (layer_picks @ [ProxyPick (lit ''direct'') None], m') \<and>
           keys_ok m' \<and> layers m' = layers m \<and> direct_fallback m' = direct_fallback m \<and>
           length layer_picks = length (nonempty_layers m) \<and>
           map layer layer_picks = map fst (nonempty_layers m) \<and>
           list_all2 (\<lambda>pick (nm, prox). layer pick = nm \<and> (\<exists>p \<in> set prox. proxy pick = Some p))
             layer_picks (nonempty_layers m)"
proof -
  from assms(1) have "fst ` set (layers m) \<subseteq> dom (indices m)"
    by (simp add: keys_ok_def)
  from candidates_loop_shape[OF this, of "[]"]
  obtain picks ix' where
    r: "candidates_loop (layers m) (indices m) [] = Inr (picks, ix')"
    and d: "dom ix' = dom (indices m)"
    and a: "list_all2 (\<lambda>pick (nm, prox). layer pick = nm \<and> (\<exists>p \<in> set prox. proxy pick = Some p))
       picks (nonempty_layers m)"
    unfolding nonempty_layers_def by auto
  have c: "candidates m = Inr (picks @ [ProxyPick (lit ''direct'') None], m\<lparr>indices := ix'\<rparr>)"
    using assms(2) by (simp add: candidates_def r)
  have k: "keys_ok (m\<lparr>indices := ix'\<rparr>)"
    using assms(1) d by (simp add: keys_ok_def)
  have len: "length picks = length (nonempty_layers m)"
    using a by (rule list_all2_lengthD)
  have "map layer picks = map fst (nonempty_layers m)"
    using a by (induction rule: list_all2_induct) auto
  with c k len a show ?thesis
    by (intro exI[of _ picks] exI[of _ "m\<lparr>indices := ix'\<rparr>"]) simp
qed

text \<open>A layer whose name no other layer has: the loop before it and after it leaves its counter alone.\<close>

lemma candidates_loop_append:
  "candidates_loop (xs @ ys) ix acc =
     (case candidates_loop xs ix acc of
        Inl e \<Rightarrow> Inl e
      | Inr (picks, ix1) \<Rightarrow> candidates_loop ys ix1 picks)"
proof (induction xs arbitrary: ix acc)
  case Nil
  show ?case by simp
next
  case (Cons l xs)
  obtain nm prox where l: "l = (nm, prox)" by (cases l)
  show ?case
  proof (cases "prox = []")
    case True
    then show ?thesis by (simp add: l Cons)
  next
    case False
    show ?thesis
    proof (cases "ix nm")
      case None
      with False show ?thesis by (simp add: l)
    next
      case (Some n)
      show ?thesis
      proof (cases "getitem prox (n mod int (length prox))")
        case (Inl e)
        with False Some show ?thesis by (simp add: l)
      next
        case (Inr p)
        have step: "candidates_loop (l # zs) ix acc =
            candidates_loop zs (ix(nm \<mapsto> n + 1)) (acc @ [ProxyPick nm (Some p)])" for zs
          using False Some Inr by (simp add: l)
        show ?thesis
          unfolding append_Cons step by (rule Cons)
      qed
    qed
  qed
qed

lemma candidates_loop_frame:
  "fst ` set ls \<subseteq> dom ix \<Longrightarrow> nm \<notin> fst ` set ls \<Longrightarrow>
   \<exists>picks ix'. candidates_loop ls ix acc = Inr (acc @ picks, ix') \<and> dom ix' = dom ix \<and>
     ix' nm = ix nm"
proof (induction ls arbitrary: ix acc)
  case Nil
  then show ?case by simp
next
  case (Cons l ls)
  obtain nm1 prox where l: "l = (nm1, prox)" by (cases l)
  from Cons.prems(2) l have neq: "nm1 \<noteq> nm" and fresh: "nm \<notin> fst ` set ls" by auto
  show ?case
  proof (cases "prox = []")
    case True
    from Cons.prems(1) have "fst ` set ls \<subseteq> dom ix" by auto
    from Cons.IH[OF this fresh, of acc] True show ?thesis by (simp add: l)
  next
    case False
    from Cons.prems(1) l obtain n where n: "ix nm1 = Some n" by auto
    let ?ix = "ix(nm1 \<mapsto> n + 1)"
    let ?p = "ProxyPick nm1 (Some (prox ! nat (n mod int (length prox))))"
    have "fst ` set ls \<subseteq> dom ?ix" using Cons.prems(1) by auto
    from Cons.IH[OF this fresh, of "acc @ [?p]"]
    obtain picks ix' where
      r: "candidates_loop ls ?ix (acc @ [?p]) = Inr ((acc @ [?p]) @ picks, ix')"
      and d: "dom ix' = dom ?ix" and f: "ix' nm = ?ix nm"
      by blast
    have "candidates_loop (l # ls) ix acc = Inr (acc @ (?p # picks), ix')"
      using False by (simp add: l n getitem_mod r)
    moreover have "dom ix' = dom ix" using d n by auto
    moreover have "ix' nm = ix nm" using f neq by simp
    ultimately show ?thesis by blast
  qed
qed

lemma unique_layer_split:
  "filter (\<lambda>l. fst l = nm) ls = [(nm, prox)] \<Longrightarrow>
   \<exists>pre post. ls = pre @ (nm, prox) # post \<and> nm \<notin> fst ` set pre \<and> nm \<notin> fst ` set post"
proof (induction ls)
  case Nil
  then show ?case by simp
next
  case (Cons l ls)
  show ?case
  proof (cases "fst l = nm")
    case True
    with Cons.prems have l: "l = (nm, prox)" and none: "filter (\<lambda>l. fst l = nm) ls = []"
      by simp_all
    from none have "nm \<notin> fst ` set ls"
      by (auto simp: filter_empty_conv)
    with l have "l # ls = [] @ (nm, prox) # ls \<and> nm \<notin> fst ` set [] \<and> nm \<notin> fst ` set ls"
      by simp
    then show ?thesis by blast
  next
    case False
    with Cons.prems have "filter (\<lambda>l. fst l = nm) ls = [(nm, prox)]" by simp
    from Cons.IH[OF this] obtain pre post where
      "ls = pre @ (nm, prox) # post" "nm \<notin> fst ` set pre" "nm \<notin> fst ` set post"
      by blast
    with False have "l # ls = (l # pre) @ (nm, prox) # post \<and> nm \<notin> fst ` set (l # pre) \<and>
        nm \<notin> fst ` set post"
      by simp
    then show ?thesis by blast
  qed
qed

lemma candidates_loop_unique:
  assumes keys: "fst ` set ls \<subseteq> dom ix"
    and uniq: "filter (\<lambda>l. fst l = nm) ls = [(nm, prox)]"
    and ne: "prox \<noteq> []" and n: "ix nm = Some n"
  shows "\<exists>picks ix'. candidates_loop ls ix [] = Inr (picks, ix') \<and> dom ix' = dom ix \<and>
     ProxyPick nm (Some (prox ! nat (n mod int (length prox)))) \<in> set picks \<and>
     ix' nm = Some (n + 1)"
proof -
  let ?p = "ProxyPick nm (Some (prox ! nat (n mod int (length prox))))"
  from unique_layer_split[OF uniq] obtain pre post where
    ls: "ls = pre @ (nm, prox) # post" and f1: "nm \<notin> fst ` set pre"
    and f2: "nm \<notin> fst ` set post"
    by blast
  from keys ls have k1: "fst ` set pre \<subseteq> dom ix" and k2: "fst ` set post \<subseteq> dom ix"
    by auto
  from candidates_loop_frame[OF k1 f1, of "[]"] obtain p1 ix1 where
    r1: "candidates_loop pre ix [] = Inr (p1, ix1)" and d1: "dom ix1 = dom ix"
    and n1: "ix1 nm = ix nm"
    by auto
  let ?ix2 = "ix1(nm \<mapsto> n + 1)"
  have k2': "fst ` set post \<subseteq> dom ?ix2" using k2 d1 by auto
  from candidates_loop_frame[OF k2' f2, of "p1 @ [?p]"] obtain p2 ix' where
    r2: "candidates_loop post ?ix2 (p1 @ [?p]) = Inr ((p1 @ [?p]) @ p2, ix')"
    and d2: "dom ix' = dom ?ix2" and n2: "ix' nm = ?ix2 nm"
    by blast
  have "candidates_loop ls ix [] = Inr ((p1 @ [?p]) @ p2, ix')"
    unfolding ls candidates_loop_append r1
    using ne n1 n by (simp add: getitem_mod r2)
  moreover have "dom ix' = dom ix" using d2 d1 n n1 by auto
  moreover have "ix' nm = Some (n + 1)" using n2 by simp
  ultimately show ?thesis by auto
qed

lemma candidates_step:
  assumes "keys_ok m" and "filter (\<lambda>l. fst l = nm) (layers m) = [(nm, prox)]"
    and "prox \<noteq> []" and "indices m nm = Some n"
  shows "\<exists>picks m'. candidates m = Inr (picks, m') \<and>
           ProxyPick nm (Some (prox ! nat (n mod int (length prox)))) \<in> set picks \<and>
           indices m' nm = Some (n + 1) \<and> layers m' = layers m \<and> keys_ok m'"
proof -
  from assms(1) have k: "fst ` set (layers m) \<subseteq> dom (indices m)"
    by (simp add: keys_ok_def)
  from candidates_loop_unique[OF k assms(2,3,4)] obtain picks ix' where
    r: "candidates_loop (layers m) (indices m) [] = Inr (picks, ix')"
    and d: "dom ix' = dom (indices m)"
    and p: "ProxyPick nm (Some (prox ! nat (n mod int (length prox)))) \<in> set picks"
    and i: "ix' nm = Some (n + 1)"
    by blast
  have "keys_ok (m\<lparr>indices := ix'\<rparr>)"
    using assms(1) d by (simp add: keys_ok_def)
  with p i show ?thesis by (simp add: candidates_def r)
qed

lemma candidates_times_rotation:
  assumes "filter (\<lambda>l. fst l = nm) ls = [(nm, prox)]" and "prox \<noteq> []"
  shows "keys_ok m \<Longrightarrow> layers m = ls \<Longrightarrow> indices m nm = Some n \<Longrightarrow>
     \<exists>pss m'. candidates_times k m = Inr (pss, m') \<and> length pss = k \<and>
        indices m' nm = Some (n + int k) \<and> layers m' = ls \<and> keys_ok m' \<and>
        (\<forall>j < k. ProxyPick nm (Some (prox ! nat ((n + int j) mod int (length prox)))) \<in> set (pss ! j))"
proof (induction k arbitrary: m n)
  case 0
  then show ?case by simp
next
  case (Suc k)
  from assms(1) Suc.prems(2) have u: "filter (\<lambda>l. fst l = nm) (layers m) = [(nm, prox)]"
    by simp
  from candidates_step[OF Suc.prems(1) u assms(2) Suc.prems(3)] Suc.prems(2)
  obtain picks m1 where c: "candidates m = Inr (picks, m1)"
    and p: "ProxyPick nm (Some (prox ! nat (n mod int (length prox)))) \<in> set picks"
    and i: "indices m1 nm = Some (n + 1)" and l: "layers m1 = ls" and k1: "keys_ok m1"
    by auto
  from Suc.IH[OF k1 l i]
  obtain pss m' where t: "candidates_times k m1 = Inr (pss, m')" and len: "length pss = k"
    and i': "indices m' nm = Some (n + 1 + int k)" and l': "layers m' = ls" and k': "keys_ok m'"
    and r: "\<forall>j < k. ProxyPick nm (Some (prox ! nat ((n + 1 + int j) mod int (length prox)))) \<in> set (pss ! j)"
    by blast
  have "\<forall>j < Suc k. ProxyPick nm (Some (prox ! nat ((n + int j) mod int (length prox)))) \<in> set ((picks # pss) ! j)"
  proof (intro allI impI)
    fix j assume j: "j < Suc k"
    show "ProxyPick nm (Some (prox ! nat ((n + int j) mod int (length prox)))) \<in> set ((picks # pss) ! j)"
    proof (cases j)
      case 0
      with p show ?thesis by simp
    next
      case (Suc j')
      with j r have "ProxyPick nm (Some (prox ! nat ((n + 1 + int j') mod int (length prox)))) \<in> set (pss ! j')"
        by simp
      moreover have "n + 1 + int j' = n + int j" by (simp add: Suc)
      ultimately show ?thesis by (simp add: Suc)
    qed
  qed
  moreover have "n + 1 + int k = n + int (Suc k)" by simp
  ultimately show ?case using c t len i' l' k' by simp
qed

lemma residue_reached:
  fixes n :: int and L t :: nat
  assumes "t < L"
  shows "\<exists>j < L. nat ((n + int j) mod int L) = t"
proof -
  let ?j = "nat ((int t - n) mod int L)"
  from assms have L: "0 < int L" by simp
  have j: "?j < L" using L by (simp add: nat_less_iff)
  have "(n + int ?j) mod int L = (n + (int t - n) mod int L) mod int L"
    using L by simp
  also have "\<dots> = (n + (int t - n)) mod int L"
    by (simp add: mod_add_right_eq)
  also have "\<dots> = int t" using assms by simp
  finally have "nat ((n + int ?j) mod int L) = t" by simp
  with j show ?thesis by blast
qed

text \<open>
  Claim C7, as the code has it. The counters are kept by layer name. For a layer with
  a non-empty endpoint list \<open>prox\<close> whose name no other layer has and whose counter
  holds \<open>n\<close>, a call of \<open>candidates\<close> picks the endpoint at index
  \<open>n mod length prox\<close> of the list and leaves the counter at \<open>n + 1\<close>; after \<open>k\<close> calls
  the counter is \<open>n + k\<close>, and when \<open>k\<close> is at least the length of the list every
  endpoint has been picked.
\<close>

theorem candidates_round_robin:
  assumes "keys_ok m" and "filter (\<lambda>l. fst l = nm) (layers m) = [(nm, prox)]"
    and "prox \<noteq> []" and "indices m nm = Some n"
  shows "(\<exists>picks m'. candidates m = Inr (picks, m') \<and>
            ProxyPick nm (Some (prox ! nat (n mod int (length prox)))) \<in> set picks \<and>
            indices m' nm = Some (n + 1) \<and> layers m' = layers m) \<and>
         (\<forall>k \<ge> length prox. \<exists>pss m'. candidates_times k m = Inr (pss, m') \<and>
            indices m' nm = Some (n + int k) \<and> layers m' = layers m \<and>
            (\<forall>p \<in> set prox. ProxyPick nm (Some p) \<in> set (concat pss)))"
proof
  from candidates_step[OF assms]
  show "\<exists>picks m'. candidates m = Inr (picks, m') \<and>
            ProxyPick nm (Some (prox ! nat (n mod int (length prox)))) \<in> set picks \<and>
            indices m' nm = Some (n + 1) \<and> layers m' = layers m"
    by blast
next
  show "\<forall>k \<ge> length prox. \<exists>pss m'. candidates_times k m = Inr (pss, m') \<and>
            indices m' nm = Some (n + int k) \<and> layers m' = layers m \<and>
            (\<forall>p \<in> set prox. ProxyPick nm (Some p) \<in> set (concat pss))"
  proof (intro allI impI)
    fix k assume k: "length prox \<le> k"
    from candidates_times_rotation[OF assms(2,3) assms(1) refl assms(4), of k]
    obtain pss m' where t: "candidates_times k m = Inr (pss, m')" and len: "length pss = k"
      and i: "indices m' nm = Some (n + int k)" and l: "layers m' = layers m"
      and r: "\<forall>j < k. ProxyPick nm (Some (prox ! nat ((n + int j) mod int (length prox)))) \<in> set (pss ! j)"
      by blast
    have "\<forall>p \<in> set prox. ProxyPick nm (Some p) \<in> set (concat pss)"
    proof
      fix p assume "p \<in> set prox"
      then obtain t where t: "t < length prox" and p: "p = prox ! t"
        by (auto simp: in_set_conv_nth)
      from residue_reached[OF t, of n] obtain j where j: "j < length prox"
        and e: "nat ((n + int j) mod int (length prox)) = t" by blast
      from j k have jk: "j < k" by simp
      with r e p have "ProxyPick nm (Some p) \<in> set (pss ! j)" by auto
      moreover from jk len have "pss ! j \<in> set pss" by simp
      ultimately show "ProxyPick nm (Some p) \<in> set (concat pss)" by auto
    qed
    with t i l show "\<exists>pss m'. candidates_times k m = Inr (pss, m') \<and>
            indices m' nm = Some (n + int k) \<and> layers m' = layers m \<and>
            (\<forall>p \<in> set prox. ProxyPick nm (Some p) \<in> set (concat pss))"
      by blast
  qed
qed

text \<open>
  Two layers called \<open>unnamed\<close> share one counter. It starts at 0; one call picks
  \<open>p1\<close> for the first layer and \<open>q2\<close>, not \<open>q1\<close>, for the second, and leaves the
  counter at 2; a second call picks the same two endpoints, so after two calls
  \<open>p2\<close> and \<open>q1\<close> have not been picked.
\<close>

theorem candidates_shared_counter:
  "layers unnamed_manager =
     [(lit ''unnamed'', [lit ''p1'', lit ''p2'']), (lit ''unnamed'', [lit ''q1'', lit ''q2''])] \<and>
   indices unnamed_manager (lit ''unnamed'') = Some 0 \<and>
   returned_picks (candidates unnamed_manager) =
     Some [ProxyPick (lit ''unnamed'') (Some (lit ''p1'')),
           ProxyPick (lit ''unnamed'') (Some (lit ''q2'')),
           ProxyPick (lit ''direct'') None] \<and>
   counter_after (candidates unnamed_manager) (lit ''unnamed'') = Some 2 \<and>
   returned_picks (candidates_times 2 unnamed_manager) =
     Some [[ProxyPick (lit ''unnamed'') (Some (lit ''p1'')),
            ProxyPick (lit ''unnamed'') (Some (lit ''q2'')),
            ProxyPick (lit ''direct'') None],
           [ProxyPick (lit ''unnamed'') (Some (lit ''p1'')),
            ProxyPick (lit ''unnamed'') (Some (lit ''q2'')),
            ProxyPick (lit ''direct'') None]]"
  by (simp add: unnamed_manager_def unnamed_layers_def ProxyManager_init_def candidates_def
      getitem_def returned_picks_def counter_after_def numeral_2_eq_2)

lemma example_manager_layers:
  "layers example_manager =
     [(lit ''dc'', [lit ''p1'', lit ''p2'']), (lit ''spare'', []), (lit ''res'', [lit ''q1''])]"
  by (simp add: example_manager_def ProxyManager_init_def example_layers_def)

lemma example_manager_keys_ok: "keys_ok example_manager"
  unfolding example_manager_def by (rule keys_ok_init)

lemma example_manager_direct: "direct_fallback example_manager"
  by (simp add: example_manager_def ProxyManager_init_def)

theorem candidates_one_pick_per_nonempty_layer_witness:
  "keys_ok example_manager \<and> direct_fallback example_manager \<and>
   (\<exists>layer_picks m'.
      candidates example_manager = Inr (layer_picks @ [ProxyPick (lit ''direct'') None], m') \<and>
      map layer layer_picks = [lit ''dc'', lit ''res''])"
proof -
  have ne: "map fst (nonempty_layers example_manager) = [lit ''dc'', lit ''res'']"
    by (simp add: nonempty_layers_def example_manager_layers lit_def)
  from candidates_one_pick_per_nonempty_layer[OF example_manager_keys_ok example_manager_direct]
  obtain layer_picks m' where
    "candidates example_manager = Inr (layer_picks @ [ProxyPick (lit ''direct'') None], m')"
    and "map layer layer_picks = map fst (nonempty_layers example_manager)"
    by (elim exE conjE)
  with ne have "\<exists>layer_picks m'.
      candidates example_manager = Inr (layer_picks @ [ProxyPick (lit ''direct'') None], m') \<and>
      map layer layer_picks = [lit ''dc'', lit ''res'']"
    by (intro exI[of _ layer_picks] exI[of _ m']) simp
  with example_manager_keys_ok example_manager_direct show ?thesis by simp
qed

theorem candidates_round_robin_witness:
  "keys_ok example_manager \<and>
   filter (\<lambda>l. fst l = lit ''dc'') (layers example_manager) =
     [(lit ''dc'', [lit ''p1'', lit ''p2''])] \<and>
   indices example_manager (lit ''dc'') = Some 0 \<and>
   (\<exists>picks m'. candidates example_manager = Inr (picks, m') \<and>
      ProxyPick (lit ''dc'') (Some (lit ''p1'')) \<in> set picks \<and>
      indices m' (lit ''dc'') = Some 1) \<and>
   (\<exists>pss m'. candidates_times 2 example_manager = Inr (pss, m') \<and>
      indices m' (lit ''dc'') = Some 2 \<and>
      ProxyPick (lit ''dc'') (Some (lit ''p1'')) \<in> set (concat pss) \<and>
      ProxyPick (lit ''dc'') (Some (lit ''p2'')) \<in> set (concat pss))"
proof -
  have u: "filter (\<lambda>l. fst l = lit ''dc'') (layers example_manager) =
     [(lit ''dc'', [lit ''p1'', lit ''p2''])]"
    by (simp add: example_manager_layers lit_def)
  have ne: "[lit ''p1'', lit ''p2''] \<noteq> []" by simp
  have i: "indices example_manager (lit ''dc'') = Some 0"
    by (simp add: example_manager_def ProxyManager_init_def example_layers_def)
  note t = candidates_round_robin[OF example_manager_keys_ok u ne i]
  from t obtain picks m1 where
    "candidates example_manager = Inr (picks, m1)"
    "ProxyPick (lit ''dc'') (Some ([lit ''p1'', lit ''p2''] ! nat (0 mod int (length [lit ''p1'', lit ''p2''])))) \<in> set picks"
    "indices m1 (lit ''dc'') = Some (0 + 1)"
    by (elim exE conjE)
  then have a: "\<exists>picks m'. candidates example_manager = Inr (picks, m') \<and>
      ProxyPick (lit ''dc'') (Some (lit ''p1'')) \<in> set picks \<and>
      indices m' (lit ''dc'') = Some 1"
    by (intro exI[of _ picks] exI[of _ m1]) simp
  have "length [lit ''p1'', lit ''p2''] \<le> (2::nat)" by simp
  with t have "\<exists>pss m'. candidates_times 2 example_manager = Inr (pss, m') \<and>
            indices m' (lit ''dc'') = Some (0 + int 2) \<and> layers m' = layers example_manager \<and>
            (\<forall>p \<in> set [lit ''p1'', lit ''p2'']. ProxyPick (lit ''dc'') (Some p) \<in> set (concat pss))"
    by (elim conjE allE[of _ "2::nat"] impE)
  then obtain pss m2 where
    "candidates_times 2 example_manager = Inr (pss, m2)"
    "indices m2 (lit ''dc'') = Some (0 + int 2)"
    "\<forall>p \<in> set [lit ''p1'', lit ''p2'']. ProxyPick (lit ''dc'') (Some p) \<in> set (concat pss)"
    by (elim exE conjE)
  then have b: "\<exists>pss m'. candidates_times 2 example_manager = Inr (pss, m') \<and>
      indices m' (lit ''dc'') = Some 2 \<and>
      ProxyPick (lit ''dc'') (Some (lit ''p1'')) \<in> set (concat pss) \<and>
      ProxyPick (lit ''dc'') (Some (lit ''p2'')) \<in> set (concat pss)"
    by (intro exI[of _ pss] exI[of _ m2]) simp
  from example_manager_keys_ok u i a b show ?thesis by (intro conjI)
qed

section \<open>The retry loop\<close>

subsection \<open>Traces\<close>

lemma sleeps_append: "sleeps (a @ b) = sleeps a @ sleeps b"
  by (induction a rule: sleeps.induct) simp_all

lemma attempts_made_append: "attempts_made (a @ b) = attempts_made a + attempts_made b"
  by (induction a rule: attempts_made.induct) simp_all

lemma last_handled_append: "last_handled (a @ b) seen = last_handled b (last_handled a seen)"
  by (induction a seen rule: last_handled.induct) simp_all

lemma session_run_append:
  "session_run (a @ b) s = (case session_run a s of None \<Rightarrow> None | Some s' \<Rightarrow> session_run b s')"
  by (induction a arbitrary: s) (simp_all split: option.splits)

text \<open>What one iteration adds to the trace.\<close>

lemma try_body_sleeps: "try_body k pick url body = (evs, res) \<Longrightarrow> sleeps evs = []"
  by (cases body) auto

lemma try_body_attempts: "try_body k pick url body = (evs, res) \<Longrightarrow> attempts_made evs = 0"
  by (cases body) auto

lemma try_body_handled: "try_body k pick url body = (evs, res) \<Longrightarrow> last_handled evs seen = seen"
  by (cases body) auto

lemma try_body_sessions:
  "try_body k pick url body = (evs, res) \<Longrightarrow>
   session_run evs (Some k, used) = Some (Some k, used)"
  by (cases body) auto

lemma try_pick_sleeps:
  "sleeps (trace (snd (try_pick br url pick st))) = sleeps (trace st)"
  by (auto simp: try_pick_def Let_def sleeps_append try_body_sleeps
      split: session_script.splits option.splits sum.splits prod.splits)

lemma try_pick_attempts:
  "attempts_made (trace (snd (try_pick br url pick st))) = attempts_made (trace st)"
  by (auto simp: try_pick_def Let_def attempts_made_append try_body_attempts
      split: session_script.splits option.splits sum.splits prod.splits)

lemma try_pick_calls: "calls (snd (try_pick br url pick st)) = Suc (calls st)"
  by (auto simp: try_pick_def Let_def
      split: session_script.splits option.splits sum.splits prod.splits)

lemma try_pick_pm: "pm (snd (try_pick br url pick st)) = pm st"
  by (auto simp: try_pick_def Let_def
      split: session_script.splits option.splits sum.splits prod.splits)

lemma try_pick_last_error:
  "last_error st = last_handled (trace st) None \<Longrightarrow>
   last_error (snd (try_pick br url pick st)) =
     last_handled (trace (snd (try_pick br url pick st))) None"
  by (auto simp: try_pick_def Let_def last_handled_append try_body_handled
      split: session_script.splits option.splits sum.splits prod.splits)

lemma try_pick_sessions:
  assumes "session_run (trace st) (None, []) = Some (None, used)"
    and "\<forall>k \<in> set used. k < calls st"
  shows "\<exists>used'. session_run (trace (snd (try_pick br url pick st))) (None, []) = Some (None, used') \<and>
           (\<forall>k \<in> set used'. k < calls (snd (try_pick br url pick st)))"
proof -
  from assms(2) have fresh: "calls st \<notin> set used" by auto
  from assms(2) have lt: "\<forall>k \<in> set (calls st # used). k < Suc (calls st)"
    using less_Suc_eq by auto
  from assms(2) have lt0: "\<forall>k \<in> set used. k < Suc (calls st)"
    using less_Suc_eq by auto
  show ?thesis
    using assms(1) fresh lt lt0
    by (auto simp: try_pick_def Let_def session_run_append try_body_sessions
        split: session_script.splits option.splits sum.splits prod.splits)
qed

lemma try_body_Inr:
  "try_body k pick url body = (evs, Inr d) \<Longrightarrow>
   evs = [NewPage k, Goto k url, WaitForTimeout k, ParseProfile k]"
  by (cases body) (auto split: sum.splits)

lemma try_pick_returned:
  assumes "try_pick br url pick st = (Some (Returned d), st')"
  shows "\<exists>tr k. trace st' = tr @ [ParseProfile k, Close k]"
proof -
  have "trace st' =
      (trace st @ [NewContext (calls st) pick, NewPage (calls st), Goto (calls st) url,
         WaitForTimeout (calls st)]) @ [ParseProfile (calls st), Close (calls st)]"
    using assms
    by (cases "br (calls st) pick url")
       (auto simp: try_pick_def Let_def dest!: try_body_Inr
          split: option.splits sum.splits prod.splits if_splits)
  then show ?thesis by blast
qed

text \<open>The loop over the picks.\<close>

lemma try_picks_sleeps:
  "sleeps (trace (snd (try_picks br url picks st))) = sleeps (trace st)"
proof (induction picks arbitrary: st)
  case Nil
  show ?case by simp
next
  case (Cons pick picks)
  obtain r st1 where t: "try_pick br url pick st = (r, st1)" by (cases "try_pick br url pick st")
  have "sleeps (trace st1) = sleeps (trace st)"
    using try_pick_sleeps[of br url pick st] by (simp add: t)
  with Cons[of st1] show ?case by (cases r) (simp_all add: t)
qed

lemma try_picks_attempts:
  "attempts_made (trace (snd (try_picks br url picks st))) = attempts_made (trace st)"
proof (induction picks arbitrary: st)
  case Nil
  show ?case by simp
next
  case (Cons pick picks)
  obtain r st1 where t: "try_pick br url pick st = (r, st1)" by (cases "try_pick br url pick st")
  have "attempts_made (trace st1) = attempts_made (trace st)"
    using try_pick_attempts[of br url pick st] by (simp add: t)
  with Cons[of st1] show ?case by (cases r) (simp_all add: t)
qed

lemma try_picks_pm: "pm (snd (try_picks br url picks st)) = pm st"
proof (induction picks arbitrary: st)
  case Nil
  show ?case by simp
next
  case (Cons pick picks)
  obtain r st1 where t: "try_pick br url pick st = (r, st1)" by (cases "try_pick br url pick st")
  have "pm st1 = pm st"
    using try_pick_pm[of br url pick st] by (simp add: t)
  with Cons[of st1] show ?case by (cases r) (simp_all add: t)
qed

lemma try_picks_last_error:
  "last_error st = last_handled (trace st) None \<Longrightarrow>
   last_error (snd (try_picks br url picks st)) =
     last_handled (trace (snd (try_picks br url picks st))) None"
proof (induction picks arbitrary: st)
  case Nil
  then show ?case by simp
next
  case (Cons pick picks)
  obtain r st1 where t: "try_pick br url pick st = (r, st1)" by (cases "try_pick br url pick st")
  have "last_error st1 = last_handled (trace st1) None"
    using try_pick_last_error[OF Cons.prems, of br url pick] by (simp add: t)
  with Cons.IH[of st1] show ?case by (cases r) (simp_all add: t)
qed

lemma try_picks_sessions:
  "session_run (trace st) (None, []) = Some (None, used) \<Longrightarrow>
   \<forall>k \<in> set used. k < calls st \<Longrightarrow>
   \<exists>used'. session_run (trace (snd (try_picks br url picks st))) (None, []) = Some (None, used') \<and>
           (\<forall>k \<in> set used'. k < calls (snd (try_picks br url picks st)))"
proof (induction picks arbitrary: st used)
  case Nil
  then show ?case by simp
next
  case (Cons pick picks)
  obtain r st1 where t: "try_pick br url pick st = (r, st1)" by (cases "try_pick br url pick st")
  from try_pick_sessions[OF Cons.prems, of br url pick]
  obtain used1 where u: "session_run (trace st1) (None, []) = Some (None, used1)"
    and l: "\<forall>k \<in> set used1. k < calls st1"
    by (auto simp: t)
  show ?case
  proof (cases r)
    case None
    with Cons.IH[OF u l] show ?thesis by (simp add: t)
  next
    case (Some a)
    with u l show ?thesis by (simp add: t)
  qed
qed

lemma try_picks_returned:
  "try_picks br url picks st = (Some (Returned d), st') \<Longrightarrow>
   \<exists>tr k. trace st' = tr @ [ParseProfile k, Close k]"
proof (induction picks arbitrary: st)
  case Nil
  then show ?case by simp
next
  case (Cons pick picks)
  obtain r st1 where t: "try_pick br url pick st = (r, st1)" by (cases "try_pick br url pick st")
  show ?case
  proof (cases r)
    case None
    with Cons t show ?thesis by simp
  next
    case (Some a)
    with Cons.prems t have "try_pick br url pick st = (Some (Returned d), st')" by simp
    then show ?thesis by (rule try_pick_returned)
  qed
qed

text \<open>The loop over the attempts.\<close>

lemma attempts_sleeps:
  "\<exists>j \<le> length as.
     map Inr (sleeps (trace (snd (attempts cfg br url as st)))) =
       map Inr (sleeps (trace st)) @ map (backoff cfg) (take j as)"
proof (induction as arbitrary: st)
  case Nil
  show ?case by simp
next
  case (Cons a as)
  have stop: "sleeps (trace (snd (attempts cfg br url (a # as) st))) = sleeps (trace st) \<Longrightarrow>
      ?case"
  proof -
    assume "sleeps (trace (snd (attempts cfg br url (a # as) st))) = sleeps (trace st)"
    then have "map Inr (sleeps (trace (snd (attempts cfg br url (a # as) st)))) =
       map Inr (sleeps (trace st)) @ map (backoff cfg) (take 0 (a # as))" by simp
    then show ?thesis by blast
  qed
  show ?case
  proof (cases "candidates (pm st)")
    case (Inl e)
    then show ?thesis by (intro stop) simp
  next
    case (Inr pr)
    obtain picks pm' where pr: "pr = (picks, pm')" by (cases pr)
    let ?st0 = "st\<lparr>pm := pm', trace := trace st @ [CandidatesCalled picks]\<rparr>"
    obtain r st1 where t: "try_picks br url picks ?st0 = (r, st1)"
      by (cases "try_picks br url picks ?st0")
    have s1: "sleeps (trace st1) = sleeps (trace st)"
      using try_picks_sleeps[of br url picks ?st0] by (simp add: t sleeps_append)
    show ?thesis
    proof (cases r)
      case (Some res)
      then show ?thesis by (intro stop) (simp add: Inr pr t s1)
    next
      case None
      show ?thesis
      proof (cases "backoff cfg a")
        case (Inl e)
        then show ?thesis by (intro stop) (simp add: \<open>candidates (pm st) = Inr pr\<close> pr t None s1)
      next
        case (Inr d)
        let ?st2 = "st1\<lparr>trace := trace st1 @ [Sleep d]\<rparr>"
        from Cons[of ?st2] obtain j where j: "j \<le> length as"
          and e: "map Inr (sleeps (trace (snd (attempts cfg br url as ?st2)))) =
             map Inr (sleeps (trace ?st2)) @ map (backoff cfg) (take j as)"
          by blast
        have "map Inr (sleeps (trace (snd (attempts cfg br url (a # as) st)))) =
           map Inr (sleeps (trace st)) @ map (backoff cfg) (take (Suc j) (a # as))"
          by (simp add: \<open>candidates (pm st) = Inr pr\<close> pr t None Inr e sleeps_append s1)
        with j show ?thesis by (intro exI[of _ "Suc j"]) simp
      qed
    qed
  qed
qed

lemma attempts_sessions:
  "session_run (trace st) (None, []) = Some (None, used) \<Longrightarrow>
   \<forall>k \<in> set used. k < calls st \<Longrightarrow>
   \<exists>used'. session_run (trace (snd (attempts cfg br url as st))) (None, []) = Some (None, used')"
proof (induction as arbitrary: st used)
  case Nil
  then show ?case by simp
next
  case (Cons a as)
  show ?case
  proof (cases "candidates (pm st)")
    case (Inl e)
    with Cons.prems show ?thesis by simp
  next
    case (Inr pr)
    obtain picks pm' where pr: "pr = (picks, pm')" by (cases pr)
    let ?st0 = "st\<lparr>pm := pm', trace := trace st @ [CandidatesCalled picks]\<rparr>"
    obtain r st1 where t: "try_picks br url picks ?st0 = (r, st1)"
      by (cases "try_picks br url picks ?st0")
    have a0: "session_run (trace ?st0) (None, []) = Some (None, used)"
      using Cons.prems(1) by (simp add: session_run_append)
    have b0: "\<forall>k \<in> set used. k < calls ?st0" using Cons.prems(2) by simp
    from try_picks_sessions[OF a0 b0, of br url picks]
    obtain used1 where u: "session_run (trace st1) (None, []) = Some (None, used1)"
      and l: "\<forall>k \<in> set used1. k < calls st1"
      by (auto simp: t)
    show ?thesis
    proof (cases r)
      case (Some res)
      with u show ?thesis by (simp add: Inr pr t)
    next
      case None
      show ?thesis
      proof (cases "backoff cfg a")
        case (Inl e)
        with u show ?thesis by (simp add: \<open>candidates (pm st) = Inr pr\<close> pr t None)
      next
        case (Inr d)
        let ?st2 = "st1\<lparr>trace := trace st1 @ [Sleep d]\<rparr>"
        have a2: "session_run (trace ?st2) (None, []) = Some (None, used1)"
          using u by (simp add: session_run_append)
        have b2: "\<forall>k \<in> set used1. k < calls ?st2" using l by simp
        from Cons.IH[OF a2 b2] show ?thesis
          by (simp add: \<open>candidates (pm st) = Inr pr\<close> pr t None Inr)
      qed
    qed
  qed
qed

lemma attempts_returned:
  "attempts cfg br url as st = (Returned d, st') \<Longrightarrow>
   \<exists>tr k. trace st' = tr @ [ParseProfile k, Close k]"
proof (induction as arbitrary: st)
  case Nil
  then show ?case by simp
next
  case (Cons a as)
  show ?case
  proof (cases "candidates (pm st)")
    case (Inl e)
    with Cons.prems show ?thesis by simp
  next
    case (Inr pr)
    obtain picks pm' where pr: "pr = (picks, pm')" by (cases pr)
    let ?st0 = "st\<lparr>pm := pm', trace := trace st @ [CandidatesCalled picks]\<rparr>"
    obtain r st1 where t: "try_picks br url picks ?st0 = (r, st1)"
      by (cases "try_picks br url picks ?st0")
    show ?thesis
    proof (cases r)
      case (Some res)
      with Cons.prems have "try_picks br url picks ?st0 = (Some (Returned d), st')"
        by (simp add: Inr pr t)
      then show ?thesis by (rule try_picks_returned)
    next
      case None
      show ?thesis
      proof (cases "backoff cfg a")
        case (Inl e)
        with Cons.prems show ?thesis
          by (simp add: \<open>candidates (pm st) = Inr pr\<close> pr t None)
      next
        case (Inr dl)
        with Cons show ?thesis
          by (simp add: \<open>candidates (pm st) = Inr pr\<close> pr t None)
      qed
    qed
  qed
qed

subsection \<open>The backoff delay\<close>

lemma backoff_in_range:
  "1 \<le> a \<Longrightarrow> a \<le> 1024 \<Longrightarrow>
   backoff cfg a = Inr (min (max_backoff_seconds cfg) (backoff_seconds cfg * 2 ^ nat (a - 1)))"
  by (simp add: backoff_def float_of_power_def)

lemma backoff_overflow: "1025 \<le> a \<Longrightarrow> backoff cfg a = Inl OverflowError"
  by (simp add: backoff_def float_of_power_def)

lemma backoff_le_max: "backoff cfg a = Inr d \<Longrightarrow> d \<le> max_backoff_seconds cfg"
  by (auto simp: backoff_def split: sum.splits)

lemma backoff_example:
  "map (backoff example_config) [1 .. 6] =
     [Inr (12 / 10), Inr (24 / 10), Inr (48 / 10), Inr (96 / 10), Inr 10, Inr 10]"
  by (simp add: backoff_def float_of_power_def example_config_def upto.simps)

lemma scrape_one_sleeps:
  "\<exists>j \<le> length [1 .. retries cfg].
     map Inr (sleeps (trace (snd (scrape_one cfg m br url)))) =
       map (backoff cfg) (take j [1 .. retries cfg])"
  using attempts_sleeps[of "[1 .. retries cfg]" cfg br url
      "\<lparr>pm = m, calls = 0, trace = [], last_error = None\<rparr>"]
  by (simp add: scrape_one_def)

subsection \<open>Exhausted retries\<close>

lemma example_indices:
  "indices example_manager = map_of [(lit ''dc'', 0), (lit ''spare'', 0), (lit ''res'', 0)]"
  by (simp add: example_manager_def ProxyManager_init_def example_layers_def)

lemma candidates_total:
  assumes "keys_ok m"
  shows "\<exists>picks m'. candidates m = Inr (picks, m') \<and> keys_ok m'"
proof -
  from assms have "fst ` set (layers m) \<subseteq> dom (indices m)"
    by (simp add: keys_ok_def)
  from candidates_loop_shape[OF this, of "[]"]
  obtain picks ix' where r: "candidates_loop (layers m) (indices m) [] = Inr (picks, ix')"
    and d: "dom ix' = dom (indices m)"
    by auto
  have "keys_ok (m\<lparr>indices := ix'\<rparr>)"
    using assms d by (simp add: keys_ok_def)
  then show ?thesis by (simp add: candidates_def r)
qed

lemma fails_navigation_candidate_fails: "fails_navigation script \<Longrightarrow> candidate_fails script"
  by (induction script rule: fails_navigation.induct) simp_all

lemma try_pick_fails:
  "candidate_fails (br (calls st) pick url) \<Longrightarrow> fst (try_pick br url pick st) = None"
  by (cases "(br (calls st) pick url)" rule: candidate_fails.cases)
     (simp_all add: try_pick_def Let_def)

lemma try_picks_fail:
  "\<forall>k pick. candidate_fails (br k pick url) \<Longrightarrow> fst (try_picks br url picks st) = None"
proof (induction picks arbitrary: st)
  case Nil
  show ?case by simp
next
  case (Cons pick picks)
  obtain r st1 where t: "try_pick br url pick st = (r, st1)" by (cases "try_pick br url pick st")
  from Cons.prems have "candidate_fails (br (calls st) pick url)" by simp
  then have "fst (try_pick br url pick st) = None" by (rule try_pick_fails)
  with t have "r = None" by simp
  with Cons.IH[OF Cons.prems, of st1] show ?case by (simp add: t)
qed

text \<open>
  When every candidate fails and every delay can be computed, each attempt of the
  list is made and followed by its suspension.
\<close>

lemma attempts_all_fail:
  assumes fail: "\<forall>k pick. candidate_fails (br k pick url)"
  shows "keys_ok (pm st) \<Longrightarrow> last_error st = last_handled (trace st) None \<Longrightarrow>
    \<forall>a \<in> set as. 1 \<le> a \<and> a \<le> 1024 \<Longrightarrow>
    \<exists>st'. attempts cfg br url as st =
             (Raised (ScrapingFailed url (last_handled (trace st') None)), st') \<and>
          sleeps (trace st') = sleeps (trace st) @
            map (\<lambda>a. min (max_backoff_seconds cfg) (backoff_seconds cfg * 2 ^ nat (a - 1))) as \<and>
          attempts_made (trace st') = attempts_made (trace st) + length as \<and>
          (as \<noteq> [] \<longrightarrow> last (trace st') =
             Sleep (min (max_backoff_seconds cfg) (backoff_seconds cfg * 2 ^ nat (last as - 1))))"
proof (induction as arbitrary: st)
  case Nil
  then show ?case by simp
next
  case (Cons a as)
  let ?d = "\<lambda>a. min (max_backoff_seconds cfg) (backoff_seconds cfg * 2 ^ nat (a - 1))"
  from Cons.prems(3) have b: "backoff cfg a = Inr (?d a)"
    by (simp add: backoff_in_range)
  from Cons.prems(3) have rest: "\<forall>a \<in> set as. 1 \<le> a \<and> a \<le> 1024" by simp
  from candidates_total[OF Cons.prems(1)]
  obtain picks pm' where c: "candidates (pm st) = Inr (picks, pm')" and k: "keys_ok pm'"
    by blast
  let ?st0 = "st\<lparr>pm := pm', trace := trace st @ [CandidatesCalled picks]\<rparr>"
  obtain r st1 where t: "try_picks br url picks ?st0 = (r, st1)"
    by (cases "try_picks br url picks ?st0")
  from fail have "fst (try_picks br url picks ?st0) = None" by (rule try_picks_fail)
  with t have r: "r = None" by simp
  let ?st2 = "st1\<lparr>trace := trace st1 @ [Sleep (?d a)]\<rparr>"
  have s1: "sleeps (trace st1) = sleeps (trace st)"
    using try_picks_sleeps[of br url picks ?st0] by (simp add: t sleeps_append)
  have a1: "attempts_made (trace st1) = Suc (attempts_made (trace st))"
    using try_picks_attempts[of br url picks ?st0] by (simp add: t attempts_made_append)
  have p1: "pm st1 = pm'"
    using try_picks_pm[of br url picks ?st0] by (simp add: t)
  have "last_error ?st0 = last_handled (trace ?st0) None"
    using Cons.prems(2) by (simp add: last_handled_append)
  from try_picks_last_error[OF this, of br url picks]
  have e1: "last_error st1 = last_handled (trace st1) None" by (simp add: t)
  have k2: "keys_ok (pm ?st2)" using k p1 by simp
  have e2: "last_error ?st2 = last_handled (trace ?st2) None"
    using e1 by (simp add: last_handled_append)
  from Cons.IH[OF k2 e2 rest]
  obtain st' where
    r': "attempts cfg br url as ?st2 =
      (Raised (ScrapingFailed url (last_handled (trace st') None)), st')"
    and sl: "sleeps (trace st') = sleeps (trace ?st2) @ map ?d as"
    and am: "attempts_made (trace st') = attempts_made (trace ?st2) + length as"
    and la: "as \<noteq> [] \<longrightarrow> last (trace st') = Sleep (?d (last as))"
    by blast
  have la0: "as = [] \<Longrightarrow> trace st' = trace ?st2"
    using r' by simp
  have "attempts cfg br url (a # as) st =
      (Raised (ScrapingFailed url (last_handled (trace st') None)), st')"
    by (simp add: c t r b r')
  moreover have "sleeps (trace st') = sleeps (trace st) @ map ?d (a # as)"
    using sl by (simp add: sleeps_append s1)
  moreover have "attempts_made (trace st') = attempts_made (trace st) + length (a # as)"
    using am by (simp add: attempts_made_append a1)
  moreover have "last (trace st') = Sleep (?d (last (a # as)))"
    using la la0 by (cases "as = []") simp_all
  ultimately show ?case by blast
qed

text \<open>
  Claim C1, as the code has it. Let each layer name have its counter (the constructor
  and \<open>candidates\<close> see to it), let the retry budget \<open>R\<close> be at least 1 and at most
  1024 (so that every delay can be computed), and let every candidate of every attempt
  fail: some step of its session (the navigation, for one) raises an exception that
  the handler catches, and closing the session raises nothing. Then \<open>scrape_one\<close>
  raises the final error carrying the error handled last, after exactly \<open>R\<close>
  attempts; it suspends \<open>R\<close> times, once after every attempt with the delay of that
  attempt, and the suspension after attempt \<open>R\<close> is the last thing it does before
  raising.
\<close>

theorem scrape_one_exhausts_retries:
  assumes "keys_ok m" and "1 \<le> retries cfg" and "retries cfg \<le> 1024"
    and "\<forall>k pick. candidate_fails (br k pick url)"
  shows "\<exists>st'. scrape_one cfg m br url =
            (Raised (ScrapingFailed url (last_handled (trace st') None)), st') \<and>
          attempts_made (trace st') = nat (retries cfg) \<and>
          sleeps (trace st') =
            map (\<lambda>a. min (max_backoff_seconds cfg) (backoff_seconds cfg * 2 ^ nat (a - 1)))
              [1 .. retries cfg] \<and>
          length (sleeps (trace st')) = nat (retries cfg) \<and>
          last (trace st') =
            Sleep (min (max_backoff_seconds cfg)
                     (backoff_seconds cfg * 2 ^ nat (retries cfg - 1)))"
proof -
  let ?st = "\<lparr>pm = m, calls = 0, trace = [], last_error = None\<rparr>"
  let ?d = "\<lambda>a. min (max_backoff_seconds cfg) (backoff_seconds cfg * 2 ^ nat (a - 1))"
  have ne: "[1 .. retries cfg] \<noteq> []" using assms(2) by simp
  have l: "last [1 .. retries cfg] = retries cfg"
    using assms(2) by (simp add: upto_rec2)
  have rng: "\<forall>a \<in> set [1 .. retries cfg]. 1 \<le> a \<and> a \<le> 1024"
    using assms(3) by simp
  have "keys_ok (pm ?st)" using assms(1) by simp
  moreover have "last_error ?st = last_handled (trace ?st) None" by simp
  ultimately obtain st' where
    "attempts cfg br url [1 .. retries cfg] ?st =
       (Raised (ScrapingFailed url (last_handled (trace st') None)), st')"
    "sleeps (trace st') = sleeps (trace ?st) @ map ?d [1 .. retries cfg]"
    "attempts_made (trace st') = attempts_made (trace ?st) + length [1 .. retries cfg]"
    "[1 .. retries cfg] \<noteq> [] \<longrightarrow> last (trace st') = Sleep (?d (last [1 .. retries cfg]))"
    using attempts_all_fail[where br=br and url=url and st="?st" and cfg=cfg
        and as="[1 .. retries cfg]"] assms(4) rng by blast
  with ne l show ?thesis
    by (intro exI[of _ st']) (simp add: scrape_one_def)
qed

lemma timeout_browser_fails: "\<forall>k pick. candidate_fails (timeout_browser k pick url)"
  by (simp add: timeout_browser_def)

lemma timeout_browser_fails_navigation:
  "\<forall>k pick. fails_navigation (timeout_browser k pick url)"
  by (simp add: timeout_browser_def)

lemma scrape_one_timeout_run:
  "attempts_made (trace (snd (scrape_one example_config example_manager timeout_browser example_url))) = 2 \<and>
   sleeps (trace (snd (scrape_one example_config example_manager timeout_browser example_url))) =
     [12 / 10, 24 / 10]"
proof -
  let ?st = "\<lparr>pm = example_manager, calls = 0, trace = [], last_error = None\<rparr>"
  let ?d = "\<lambda>a. min (max_backoff_seconds example_config)
     (backoff_seconds example_config * 2 ^ nat (a - 1))"
  have r: "retries example_config = 2" by (simp add: example_config_def)
  have rng: "\<forall>a \<in> set [1 .. 2::int]. 1 \<le> a \<and> a \<le> 1024" by simp
  have "keys_ok (pm ?st)" using example_manager_keys_ok by simp
  moreover have "last_error ?st = last_handled (trace ?st) None" by simp
  ultimately obtain st' where
    a: "attempts example_config timeout_browser example_url [1 .. 2] ?st =
       (Raised (ScrapingFailed example_url (last_handled (trace st') None)), st')"
    and s: "sleeps (trace st') = sleeps (trace ?st) @ map ?d [1 .. 2]"
    and m: "attempts_made (trace st') = attempts_made (trace ?st) + length [1 .. 2::int]"
    using attempts_all_fail[where br=timeout_browser and url=example_url and st="?st"
        and cfg=example_config and as="[1 .. 2]"] timeout_browser_fails[of example_url] rng
    by blast
  have b: "map ?d [1 .. 2] = [12 / 10, 24 / 10]"
    by (simp add: example_config_def upto.simps)
  have e: "snd (scrape_one example_config example_manager timeout_browser example_url) = st'"
    by (simp add: scrape_one_def r a)
  show ?thesis
    unfolding e using s m b by (simp add: upto.simps)
qed

text \<open>
  With two retries and a browser in which every navigation times out, the run makes
  two attempts and suspends twice, for 1.2 and 2.4 seconds: not once, as \<open>R - 1\<close>
  suspensions would be.
\<close>

theorem scrape_one_backs_off_after_last_attempt:
  "retries example_config = 2 \<and>
   attempts_made (trace (snd (scrape_one example_config example_manager timeout_browser example_url))) = 2 \<and>
   sleeps (trace (snd (scrape_one example_config example_manager timeout_browser example_url))) =
     [12 / 10, 24 / 10] \<and>
   length (sleeps (trace (snd (scrape_one example_config example_manager timeout_browser example_url))))
     \<noteq> nat (retries example_config - 1)"
  using scrape_one_timeout_run by (simp add: example_config_def)

theorem scrape_one_exhausts_retries_witness:
  "keys_ok example_manager \<and> 1 \<le> retries example_config \<and> retries example_config \<le> 1024 \<and>
   (\<forall>k pick. fails_navigation (timeout_browser k pick example_url)) \<and>
   (\<forall>k pick. candidate_fails (timeout_browser k pick example_url)) \<and>
   (\<exists>st'. scrape_one example_config example_manager timeout_browser example_url =
            (Raised (ScrapingFailed example_url (last_handled (trace st') None)), st') \<and>
          attempts_made (trace st') = 2 \<and>
          sleeps (trace st') = [12 / 10, 24 / 10] \<and>
          last (trace st') = Sleep (24 / 10))"
proof -
  let ?d = "\<lambda>a. min (max_backoff_seconds example_config)
     (backoff_seconds example_config * 2 ^ nat (a - 1))"
  have r: "retries example_config = 2" by (simp add: example_config_def)
  then have r1: "1 \<le> retries example_config" and r2: "retries example_config \<le> 1024"
    by simp_all
  have b: "map ?d [1 .. 2] = [12 / 10, 24 / 10]"
    by (simp add: example_config_def upto.simps)
  have b2: "?d 2 = 24 / 10"
    by (simp add: example_config_def)
  from scrape_one_exhausts_retries[where m=example_manager and cfg=example_config
      and br=timeout_browser and url=example_url,
      OF example_manager_keys_ok r1 r2 timeout_browser_fails]
  obtain st' where
    "scrape_one example_config example_manager timeout_browser example_url =
       (Raised (ScrapingFailed example_url (last_handled (trace st') None)), st')"
    "attempts_made (trace st') = nat (retries example_config)"
    "sleeps (trace st') = map ?d [1 .. retries example_config]"
    "last (trace st') = Sleep (?d (retries example_config))"
    by (elim exE conjE)
  then have "\<exists>st'. scrape_one example_config example_manager timeout_browser example_url =
            (Raised (ScrapingFailed example_url (last_handled (trace st') None)), st') \<and>
          attempts_made (trace st') = 2 \<and>
          sleeps (trace st') = [12 / 10, 24 / 10] \<and>
          last (trace st') = Sleep (24 / 10)"
    using b b2 by (intro exI[of _ st']) (simp add: r)
  with example_manager_keys_ok r1 r2 timeout_browser_fails_navigation[of example_url]
    timeout_browser_fails[of example_url]
  show ?thesis
    by (intro conjI)
qed

subsection \<open>The delays of a run\<close>

text \<open>
  Claim C8, as the code has it. For an attempt number \<open>a\<close> from 1 to 1024 the delay is
  \<open>min(max, base * 2^(a-1))\<close>, and a delay that is computed never exceeds the maximum.
  With base 1.2 and maximum 10 the attempts 1 to 6 give 1.2, 2.4, 4.8, 9.6, 10, 10. In
  every run of \<open>scrape_one\<close> the suspensions are the delays of the attempts 1, 2, ...
  in this order, so each of them is at most the maximum.
\<close>

theorem backoff_capped:
  "(1 \<le> a \<and> a \<le> 1024 \<longrightarrow>
      backoff cfg a =
        Inr (min (max_backoff_seconds cfg) (backoff_seconds cfg * 2 ^ nat (a - 1)))) \<and>
   (backoff cfg a = Inr d \<longrightarrow> d \<le> max_backoff_seconds cfg) \<and>
   map (backoff example_config) [1 .. 6] =
     [Inr (12 / 10), Inr (24 / 10), Inr (48 / 10), Inr (96 / 10), Inr 10, Inr 10] \<and>
   (\<exists>j \<le> length [1 .. retries cfg].
      map Inr (sleeps (trace (snd (scrape_one cfg m br url)))) =
        map (backoff cfg) (take j [1 .. retries cfg])) \<and>
   (\<forall>s \<in> set (sleeps (trace (snd (scrape_one cfg m br url)))). s \<le> max_backoff_seconds cfg)"
proof (intro conjI)
  show "1 \<le> a \<and> a \<le> 1024 \<longrightarrow>
      backoff cfg a =
        Inr (min (max_backoff_seconds cfg) (backoff_seconds cfg * 2 ^ nat (a - 1)))"
    by (simp add: backoff_in_range)
  show "backoff cfg a = Inr d \<longrightarrow> d \<le> max_backoff_seconds cfg"
    by (simp add: backoff_le_max)
  show "map (backoff example_config) [1 .. 6] =
     [Inr (12 / 10), Inr (24 / 10), Inr (48 / 10), Inr (96 / 10), Inr 10, Inr 10]"
    by (rule backoff_example)
  show "\<exists>j \<le> length [1 .. retries cfg].
      map Inr (sleeps (trace (snd (scrape_one cfg m br url)))) =
        map (backoff cfg) (take j [1 .. retries cfg])"
    by (rule scrape_one_sleeps)
  show "\<forall>s \<in> set (sleeps (trace (snd (scrape_one cfg m br url)))). s \<le> max_backoff_seconds cfg"
  proof
    fix s assume s: "s \<in> set (sleeps (trace (snd (scrape_one cfg m br url))))"
    from scrape_one_sleeps[of cfg m br url] obtain j where
      e: "map Inr (sleeps (trace (snd (scrape_one cfg m br url)))) =
         map (backoff cfg) (take j [1 .. retries cfg])"
      by blast
    from s have "(Inr s :: py_error + real) \<in>
        set (map Inr (sleeps (trace (snd (scrape_one cfg m br url)))))"
      by simp
    then have "Inr s \<in> set (map (backoff cfg) (take j [1 .. retries cfg]))"
      by (simp only: e)
    then obtain a' where "backoff cfg a' = Inr s" by auto
    then show "s \<le> max_backoff_seconds cfg" by (rule backoff_le_max)
  qed
qed

text \<open>
  At attempt 1025 no delay is computed: the conversion of \<open>2 ** 1024\<close> to a float
  raises \<open>OverflowError\<close>.
\<close>

theorem backoff_overflows_at_1025:
  "backoff example_config 1025 = Inl OverflowError \<and>
   backoff example_config 1025 \<noteq>
     Inr (min (max_backoff_seconds example_config)
            (backoff_seconds example_config * 2 ^ nat (1025 - 1)))"
  by (simp add: backoff_overflow)

theorem backoff_capped_witness:
  "(1::int) \<le> 4 \<and> (4::int) \<le> 1024 \<and> backoff example_config 4 = Inr (96 / 10) \<and>
   backoff example_config 5 = Inr (max_backoff_seconds example_config) \<and>
   24 / 10 \<in> set (sleeps (trace (snd
      (scrape_one example_config example_manager timeout_browser example_url)))) \<and>
   24 / 10 \<le> max_backoff_seconds example_config"
proof -
  have m: "24 / 10 \<in> set (sleeps (trace (snd
      (scrape_one example_config example_manager timeout_browser example_url))))"
    using scrape_one_timeout_run by simp
  from backoff_capped[of 4 example_config "96 / 10" example_manager timeout_browser example_url]
  have "backoff example_config 4 =
      Inr (min (max_backoff_seconds example_config)
             (backoff_seconds example_config * 2 ^ nat (4 - 1)))"
    and "\<forall>s \<in> set (sleeps (trace (snd
      (scrape_one example_config example_manager timeout_browser example_url)))).
        s \<le> max_backoff_seconds example_config"
    by simp_all
  with m have "backoff example_config 4 = Inr (96 / 10)"
    and "24 / 10 \<le> max_backoff_seconds example_config"
    by (simp_all add: example_config_def)
  moreover have "backoff example_config 5 = Inr (max_backoff_seconds example_config)"
    by (simp add: backoff_def float_of_power_def example_config_def)
  ultimately show ?thesis using m by simp
qed

subsection \<open>Sessions\<close>

text \<open>
  Claim C10. In every run of \<open>scrape_one\<close>, whatever the browser does and however the
  run ends (a result, the final error, or an exception that propagates), the trace
  keeps the session discipline and ends with no session open: a session is opened
  under a new number and only when none is open; pages are created, navigated and
  parsed only in the session just opened; the session is closed before the next
  candidate, the next attempt or a suspension. When a result is returned, the last two
  things done are the extraction and the \<open>close\<close> of its session.
\<close>

theorem scrape_one_releases_sessions:
  "sessions_released (trace (snd (scrape_one cfg m br url))) \<and>
   (fst (scrape_one cfg m br url) = Returned d \<longrightarrow>
      (\<exists>tr k. trace (snd (scrape_one cfg m br url)) = tr @ [ParseProfile k, Close k]))"
proof
  let ?st = "\<lparr>pm = m, calls = 0, trace = [], last_error = None\<rparr>"
  have "session_run (trace ?st) (None, []) = Some (None, [])" by simp
  moreover have "\<forall>k \<in> set []. k < calls ?st" by simp
  ultimately obtain used' where
    "session_run (trace (snd (attempts cfg br url [1 .. retries cfg] ?st))) (None, []) =
       Some (None, used')"
    using attempts_sessions[of ?st "[]" cfg br url "[1 .. retries cfg]"] by blast
  then show "sessions_released (trace (snd (scrape_one cfg m br url)))"
    by (simp add: sessions_released_def scrape_one_def)
next
  show "fst (scrape_one cfg m br url) = Returned d \<longrightarrow>
      (\<exists>tr k. trace (snd (scrape_one cfg m br url)) = tr @ [ParseProfile k, Close k])"
  proof
    assume "fst (scrape_one cfg m br url) = Returned d"
    then have "scrape_one cfg m br url = (Returned d, snd (scrape_one cfg m br url))"
      by (simp add: prod_eq_iff)
    then show "\<exists>tr k. trace (snd (scrape_one cfg m br url)) = tr @ [ParseProfile k, Close k]"
      unfolding scrape_one_def by (rule attempts_returned)
  qed
qed

lemma scrape_one_direct_only:
  "fst (scrape_one example_config example_manager direct_only_browser example_url) =
   Returned \<lparr>source_url = example_url, region = None, family_name = None, community = [],
     life_raw = [], characters = [], data_proxy_layer = lit ''direct'', data_proxy = None\<rparr>"
  by (simp add: scrape_one_def example_config_def upto.simps candidates_def
      example_manager_layers example_indices example_manager_direct getitem_def
      try_pick_def direct_only_browser_def Let_def parse_profile_page_EU_Doe
      profile.defs scraped.defs lit_def)

theorem scrape_one_releases_sessions_witness:
  "sessions_released
     (trace (snd (scrape_one example_config example_manager direct_only_browser example_url))) \<and>
   fst (scrape_one example_config example_manager direct_only_browser example_url) =
     Returned \<lparr>source_url = example_url, region = None, family_name = None, community = [],
       life_raw = [], characters = [], data_proxy_layer = lit ''direct'', data_proxy = None\<rparr> \<and>
   (\<exists>tr k. trace (snd (scrape_one example_config example_manager direct_only_browser
        example_url)) = tr @ [ParseProfile k, Close k])"
  using scrape_one_releases_sessions[of example_config example_manager direct_only_browser
      example_url "\<lparr>source_url = example_url, region = None, family_name = None, community = [],
       life_raw = [], characters = [], data_proxy_layer = lit ''direct'', data_proxy = None\<rparr>"]
    scrape_one_direct_only
  by simp


end
